theory Spec2Isabelle
  imports Complex_Main "HOL-Library.Sublist"
begin

section \<open>JavaScript strings\<close>

text \<open>
  Strings are \<^typ>\<open>string\<close>; a character stands for one UTF-16 code unit of the
  JavaScript string, so \<open>length\<close> is \<open>.length\<close> and \<open>take n\<close> is \<open>.substring(0, n)\<close>.
  The type has the code units below 256, that is Basic Latin and the Latin-1 Supplement;
  strings with other code units are outside the model. On these code units
  \<open>toLowerCase\<close> maps \<open>A\<close> to \<open>Z\<close> and U+00C0 to U+00DE, the multiplication sign U+00D7
  apart, to the letter 32 places on and leaves the rest; \<open>trim\<close> strips the white space
  and line terminators of the language, which are U+0009 to U+000D, the space and the
  no-break space U+00A0; and two characters are equal under the \<open>i\<close> flag of a regular
  expression exactly when their lower-case forms are.
\<close>

fun lower_char :: "char \<Rightarrow> char" where
  "lower_char (Char b0 b1 b2 b3 b4 b5 b6 b7) =
     (let n = (of_char (Char b0 b1 b2 b3 b4 b5 b6 b7) :: nat)
      in if (65 \<le> n \<and> n \<le> 90) \<or> (192 \<le> n \<and> n \<le> 222 \<and> n \<noteq> 215)
         then Char b0 b1 b2 b3 b4 True b6 b7
         else Char b0 b1 b2 b3 b4 b5 b6 b7)"

definition toLowerCase :: "string \<Rightarrow> string" where
  "toLowerCase s = map lower_char s"

definition is_space :: "char \<Rightarrow> bool" where
  "is_space c = ((of_char c :: nat) \<in> {9, 10, 11, 12, 13, 32, 160})"

definition trim :: "string \<Rightarrow> string" where
  "trim s = rev (dropWhile is_space (rev (dropWhile is_space s)))"

text \<open>\<open>s.includes(t)\<close>: \<open>t\<close> occurs in \<open>s\<close> as a contiguous run.\<close>

definition str_includes :: "string \<Rightarrow> string \<Rightarrow> bool" where
  "str_includes s t = sublist t s"

text \<open>JavaScript truthiness of a string and of a nullable string.\<close>

definition truthy :: "string \<Rightarrow> bool" where
  "truthy s = (s \<noteq> [])"

definition truthy_opt :: "string option \<Rightarrow> bool" where
  "truthy_opt x = (case x of None \<Rightarrow> False | Some s \<Rightarrow> truthy s)"

text \<open>
  A regular expression that is an alternation of literal words under the \<open>i\<close> flag,
  such as \<open>/Firefox|Chrome|Safari/i\<close>, tested against a string: some word occurs in the
  string, letter case ignored.
\<close>

definition test_words_i :: "string list \<Rightarrow> string \<Rightarrow> bool" where
  "test_words_i ws s = list_ex (\<lambda>w. str_includes (toLowerCase s) (toLowerCase w)) ws"

section \<open>Context extraction (utils/contextExtractor.ts)\<close>

datatype context_type = File | Url | Command | Document | Project | Other

record ExtractedContext =
  ctx_type :: context_type
  ctx_value :: string
  ctx_details :: "string option"

text \<open>
  The title parsers of the pattern tables and \<open>extractBrowserContext\<close> are regular
  expression programs over the window title; the properties below hold whatever they
  return, so they are parameters: the \<open>i\<close>-th entry of each table has the extractor
  \<open>ide_extractor x i\<close> and so on. The application-name tests of the tables are the
  source's.
\<close>

record extractors =
  ide_extractor :: "nat \<Rightarrow> string \<Rightarrow> string option"
  terminal_extractor :: "nat \<Rightarrow> string \<Rightarrow> string option"
  design_extractor :: "nat \<Rightarrow> string \<Rightarrow> string option"
  communication_extractor :: "nat \<Rightarrow> string \<Rightarrow> string option"
  extractBrowserContext :: "string \<Rightarrow> string option \<Rightarrow> ExtractedContext option"

definition IDE_appNames :: "string list list" where
  "IDE_appNames =
     [[''Visual Studio Code'', ''Code'', ''VSCode''],
      [''Cursor''],
      [''Xcode''],
      [''IntelliJ'', ''WebStorm'', ''PyCharm'', ''PhpStorm'', ''Rider'', ''GoLand'', ''CLion'',
       ''RubyMine''],
      [''Sublime Text''],
      [''nvim'', ''vim'']]"

definition TERMINAL_appNames :: "string list list" where
  "TERMINAL_appNames =
     [[''iTerm'', ''Terminal'', ''Ghostty'', ''Alacritty'', ''Hyper'', ''Warp'', ''Kitty'']]"

definition DESIGN_appNames :: "string list list" where
  "DESIGN_appNames =
     [[''Figma''],
      [''Sketch''],
      [''Photoshop'', ''Illustrator'', ''InDesign'', ''XD'', ''Premiere'', ''After Effects'']]"

definition COMMUNICATION_appNames :: "string list list" where
  "COMMUNICATION_appNames = [[''Slack''], [''Discord''], [''Teams'']]"

definition BROWSER_appNames :: "string list" where
  "BROWSER_appNames = [''Firefox'', ''Chrome'', ''Safari'', ''Edge'', ''Brave'', ''Arc'']"

definition patterns :: "string list list \<Rightarrow> (nat \<Rightarrow> string \<Rightarrow> string option)
    \<Rightarrow> (string list \<times> (string \<Rightarrow> string option)) list" where
  "patterns names ex = map (\<lambda>i. (names ! i, ex i)) [0 ..< length names]"

text \<open>
  \<open>for (const pattern of TABLE) { if (pattern.appName.test(appName)) { const extracted =
  pattern.extractor(windowTitle); if (extracted) return ...; } }\<close>: the first truthy
  extraction of a pattern whose application test passes.
\<close>

fun first_extracted :: "(string list \<times> (string \<Rightarrow> string option)) list \<Rightarrow> string \<Rightarrow> string
    \<Rightarrow> string option" where
  "first_extracted [] appName title = None"
| "first_extracted ((names, extractor) # ps) appName title =
     (if test_words_i names appName \<and> truthy_opt (extractor title) then extractor title
      else first_extracted ps appName title)"

definition genericTitles :: "string list" where
  "genericTitles = [''untitled'', ''new document'', ''new file'', ''document'', ''window'', '''']"

definition extractContext :: "extractors \<Rightarrow> string \<Rightarrow> string \<Rightarrow> string option \<Rightarrow> string option
    \<Rightarrow> ExtractedContext option" where
  "extractContext x appName windowTitle url documentPath =
     (if \<not> truthy windowTitle \<or> length (trim windowTitle) = 0 then None
      else if (case documentPath of None \<Rightarrow> False | Some p \<Rightarrow> truthy p \<and> truthy (trim p)) then
        Some \<lparr>ctx_type = File, ctx_value = the documentPath, ctx_details = None\<rparr>
      else case first_extracted (patterns IDE_appNames (ide_extractor x)) appName windowTitle of
        Some v \<Rightarrow> Some \<lparr>ctx_type = File, ctx_value = v, ctx_details = None\<rparr>
      | None \<Rightarrow>
      (case first_extracted (patterns TERMINAL_appNames (terminal_extractor x)) appName
              windowTitle of
        Some v \<Rightarrow> Some \<lparr>ctx_type = Command, ctx_value = v, ctx_details = None\<rparr>
      | None \<Rightarrow>
      (case first_extracted (patterns DESIGN_appNames (design_extractor x)) appName
              windowTitle of
        Some v \<Rightarrow> Some \<lparr>ctx_type = Document, ctx_value = v, ctx_details = None\<rparr>
      | None \<Rightarrow>
      (case first_extracted (patterns COMMUNICATION_appNames (communication_extractor x))
              appName windowTitle of
        Some v \<Rightarrow> Some \<lparr>ctx_type = Other, ctx_value = v, ctx_details = None\<rparr>
      | None \<Rightarrow>
        if test_words_i BROWSER_appNames appName then extractBrowserContext x windowTitle url
        else
          let normalizedTitle = trim (toLowerCase windowTitle)
          in if normalizedTitle \<notin> set genericTitles \<and> length windowTitle < 100 then
               Some \<lparr>ctx_type = Other, ctx_value = take 80 windowTitle, ctx_details = None\<rparr>
             else None))))"

text \<open>The application name passes the test of no entry of the four tables and is no browser.\<close>

definition matchesNoFamily :: "string \<Rightarrow> bool" where
  "matchesNoFamily appName =
     (\<not> list_ex (\<lambda>names. test_words_i names appName)
          (IDE_appNames @ TERMINAL_appNames @ DESIGN_appNames @ COMMUNICATION_appNames)
      \<and> \<not> test_words_i BROWSER_appNames appName)"

section \<open>Events and the platform\<close>

text \<open>
  A row of the \<open>events\<close> table, with the columns that aggregation reads. \<open>timestamp\<close> is
  the \<open>Date\<close> as \<open>getTime()\<close> gives it: milliseconds since the epoch. \<open>duration\<close> is in
  seconds and nullable; the code reads it as \<open>event.duration ?? 5\<close>.
\<close>

record Event =
  timestamp :: int
  appName :: string
  windowTitle :: string
  bundleIdentifier :: "string option"
  documentPath :: "string option"
  url :: "string option"
  isIdle :: bool
  duration :: "int option"

definition duration_or_5 :: "Event \<Rightarrow> int" where
  "duration_or_5 e = (case duration e of None \<Rightarrow> 5 | Some d \<Rightarrow> d)"

datatype ai_reply =
  Failed
| Parsed (sameSession: bool) (reply_confidence: "rat option") (reply_reason: "string option")
    (reply_category: "string option")

text \<open>
  What the code calls and does not define: \<open>url_hostname u\<close> is \<open>new URL(u).hostname\<close> and
  \<open>None\<close> where the constructor throws; \<open>regexp_test_i src s\<close> is
  \<open>new RegExp(src, "i").test(s)\<close>, for the sources that the constructor accepts (a
  pattern whose expression it rejects is outside the model, as is a \<open>Date\<close> outside the
  range of \<open>toISOString\<close>); \<open>callHaiku prev curr\<close> is the model's answer to the
  prompt built from the two event descriptions, after \<open>JSON.parse\<close> (\<open>Failed\<close> when the call
  or the parse throws; \<open>reply_confidence\<close> is \<open>None\<close> when the field is not a number);
  \<open>createOrUpdateSuggestion\<close> tells whether the write of a suggestion succeeded;
  \<open>randomUUID n\<close> is the result of the \<open>n\<close>-th call of \<open>randomUUID()\<close>. Confidences are
  JavaScript numbers that the code only compares, with each other and with literals; a
  number is the rational that its literal or its JSON numeral denotes. Two such numbers
  compare as their doubles do, unless both round to the same double.
\<close>

record CategoryLookup =
  lookup_apps :: "string \<rightharpoonup> string"
  lookup_bundles :: "string \<rightharpoonup> string"
  lookup_domains :: "string \<rightharpoonup> string"
  domainPatterns :: "(string \<times> string) list"

record env =
  url_hostname :: "string \<Rightarrow> string option"
  regexp_test_i :: "string \<Rightarrow> string \<Rightarrow> bool"
  categoryLookup :: "CategoryLookup option"
  isModelAvailable :: bool
  callHaiku :: "string \<Rightarrow> string \<Rightarrow> ai_reply"
  createOrUpdateSuggestion :: "string \<Rightarrow> string \<Rightarrow> string \<Rightarrow> rat \<Rightarrow> bool"
  randomUUID :: "nat \<Rightarrow> string"
  title_extractors :: extractors

definition strip_www :: "string \<Rightarrow> string" where
  "strip_www h = (if prefix ''www.'' h then drop 4 h else h)"

definition extractDomain :: "env \<Rightarrow> string option \<Rightarrow> string option" where
  "extractDomain E u =
     (case u of None \<Rightarrow> None
      | Some s \<Rightarrow> if \<not> truthy s then None else map_option strip_www (url_hostname E s))"

definition relatedGroups :: "string list list" where
  "relatedGroups =
     [[''github.com'', ''githubusercontent.com'', ''github.io'', ''gist.github.com''],
      [''google.com'', ''googleapis.com'', ''googleusercontent.com''],
      [''stackoverflow.com'', ''stackexchange.com'', ''askubuntu.com'', ''serverfault.com''],
      [''amazon.com'', ''aws.amazon.com'', ''console.aws.amazon.com''],
      [''microsoft.com'', ''azure.com'', ''live.com'', ''office.com'']]"

definition areUrlsRelated :: "env \<Rightarrow> string option \<Rightarrow> string option \<Rightarrow> bool" where
  "areUrlsRelated E url1 url2 =
     (if \<not> truthy_opt url1 \<or> \<not> truthy_opt url2 then False
      else case (extractDomain E url1, extractDomain E url2) of
        (Some domain1, Some domain2) \<Rightarrow>
          if \<not> truthy domain1 \<or> \<not> truthy domain2 then False
          else if domain1 = domain2 then True
          else list_ex (\<lambda>grp.
                 list_ex (\<lambda>g. str_includes domain1 g \<or> str_includes g domain1) grp
                 \<and> list_ex (\<lambda>g. str_includes domain2 g \<or> str_includes g domain2) grp)
               relatedGroups
      | _ \<Rightarrow> False)"

section \<open>Session boundaries (services/sessionBoundary.ts)\<close>

record BoundaryDecision =
  shouldMerge :: bool
  confidence :: rat
  reason :: string
  suggestedCategory :: "string option"

type_synonym decision_cache = "string \<rightharpoonup> BoundaryDecision"

definition RELATED_APP_GROUPS :: "string list list" where
  "RELATED_APP_GROUPS =
     [[''Visual Studio Code'', ''Code'', ''Cursor'', ''Xcode'', ''IntelliJ IDEA'', ''WebStorm'',
       ''PyCharm''],
      [''Ghostty'', ''Terminal'', ''iTerm2'', ''Alacritty'', ''Hyper'', ''Warp'', ''Kitty''],
      [''Bruno'', ''Postman'', ''Insomnia''],
      [''Figma'', ''Sketch'', ''Adobe XD''],
      [''Photoshop'', ''Illustrator'', ''InDesign''],
      [''Slack'', ''Discord'', ''Teams'', ''Zoom''],
      [''Firefox'', ''Chrome'', ''Safari'', ''Edge'', ''Brave'', ''Arc'']]"

definition IDLE_THRESHOLD :: int where
  "IDLE_THRESHOLD = 120"

definition MAX_SESSION_GAP :: int where
  "MAX_SESSION_GAP = 300"

text \<open>
  The source of the regular expression that \<open>matchesDomainPattern\<close> builds:
  \<open>pattern.replace(/\./g, "\\.").replace(/\*/g, ".*")\<close> between \<open>^\<close> and \<open>$\<close>.
\<close>

definition replace_dots :: "string \<Rightarrow> string" where
  "replace_dots s = concat (map (\<lambda>c. if c = CHR ''.'' then [CHR 0x5C, CHR ''.''] else [c]) s)"

definition replace_stars :: "string \<Rightarrow> string" where
  "replace_stars s = concat (map (\<lambda>c. if c = CHR ''*'' then ''.*'' else [c]) s)"

definition domainPatternSource :: "string \<Rightarrow> string" where
  "domainPatternSource pattern = ''^'' @ replace_stars (replace_dots pattern) @ ''$''"

definition matchesDomainPattern :: "env \<Rightarrow> string \<Rightarrow> string \<Rightarrow> bool" where
  "matchesDomainPattern E domain pattern = regexp_test_i E (domainPatternSource pattern) domain"

text \<open>The loop over \<open>domainPatterns\<close>: the category of the first pattern that matches.\<close>

fun firstPattern :: "env \<Rightarrow> string \<Rightarrow> (string \<times> string) list \<Rightarrow> string option" where
  "firstPattern E domain [] = None"
| "firstPattern E domain ((pattern, category) # ps) =
     (if matchesDomainPattern E domain pattern then Some category
      else firstPattern E domain ps)"

definition getCategoryForEvent :: "env \<Rightarrow> Event \<Rightarrow> string option" where
  "getCategoryForEvent E event =
     (case categoryLookup E of None \<Rightarrow> None
      | Some L \<Rightarrow>
        let byBundle = (if truthy_opt (bundleIdentifier event)
                        then lookup_bundles L (the (bundleIdentifier event)) else None)
        in if truthy_opt byBundle then byBundle
        else let byApp = lookup_apps L (appName event)
        in if truthy_opt byApp then byApp
        else if truthy_opt (url event) then
          (let domain = extractDomain E (url event)
           in if truthy_opt domain then
                (let byDomain = lookup_domains L (the domain)
                 in if truthy_opt byDomain then byDomain
                    else firstPattern E (the domain) (domainPatterns L))
              else None)
        else None)"

definition inGroup :: "string \<Rightarrow> string list \<Rightarrow> bool" where
  "inGroup app grp =
     list_ex (\<lambda>g. str_includes (toLowerCase app) (toLowerCase g)
                 \<or> str_includes (toLowerCase g) (toLowerCase app)) grp"

definition areAppsRelated :: "string \<Rightarrow> string \<Rightarrow> bool" where
  "areAppsRelated app1 app2 =
     list_ex (\<lambda>grp. inGroup app1 grp \<and> inGroup app2 grp) RELATED_APP_GROUPS"

definition isBrowser :: "string \<Rightarrow> bool" where
  "isBrowser name =
     list_ex (\<lambda>b. str_includes (toLowerCase name) (toLowerCase b))
       [''Firefox'', ''Chrome'', ''Safari'', ''Edge'', ''Brave'', ''Arc'']"

definition getUncategorizedValue :: "env \<Rightarrow> Event \<Rightarrow> string" where
  "getUncategorizedValue E event =
     (if isBrowser (appName event) \<and> truthy_opt (url event) then
        (case extractDomain E (url event) of Some d \<Rightarrow> d | None \<Rightarrow> appName event)
      else appName event)"

definition eventKey :: "env \<Rightarrow> Event \<Rightarrow> string" where
  "eventKey E event =
     (if isBrowser (appName event) then
        (case extractDomain E (Some (case url event of None \<Rightarrow> [] | Some u \<Rightarrow> u)) of
           Some d \<Rightarrow> d | None \<Rightarrow> appName event)
      else appName event)"

definition buildCacheKey :: "env \<Rightarrow> Event \<Rightarrow> Event \<Rightarrow> string" where
  "buildCacheKey E prevEv currEv = eventKey E prevEv @ ''|'' @ eventKey E currEv"

definition describeEvent :: "env \<Rightarrow> Event \<Rightarrow> string" where
  "describeEvent E event =
     appName event
     @ (if truthy_opt (url event) then
          (case extractDomain E (url event) of
             Some domain \<Rightarrow> if truthy domain then '' ('' @ domain @ '')'' else []
           | None \<Rightarrow> [])
        else [])
     @ (if truthy (windowTitle event) \<and> length (windowTitle event) < 60
        then '': '' @ [CHR 0x22] @ windowTitle event @ [CHR 0x22] else [])"

definition askAIForBoundary :: "env \<Rightarrow> Event \<Rightarrow> Event \<Rightarrow> BoundaryDecision" where
  "askAIForBoundary E prevEv currEv =
     (case callHaiku E (describeEvent E prevEv) (describeEvent E currEv) of
        Failed \<Rightarrow>
          \<lparr>shouldMerge = False, confidence = 5 / 10,
           reason = ''AI parse error - conservative split'', suggestedCategory = None\<rparr>
      | Parsed same conf rsn cat \<Rightarrow>
          \<lparr>shouldMerge = same,
           confidence = (case conf of Some c \<Rightarrow> c | None \<Rightarrow> 6 / 10),
           reason = (if truthy_opt rsn then the rsn else ''AI classification''),
           suggestedCategory = cat\<rparr>)"

definition conservative_split :: BoundaryDecision where
  "conservative_split =
     \<lparr>shouldMerge = False, confidence = 5 / 10,
      reason = ''Uncategorized - conservative split'', suggestedCategory = None\<rparr>"

text \<open>
  \<open>decideByCategory\<close> reads and writes the module's \<open>aiDecisionCache\<close>; the model takes
  the cache and returns the decision with the cache after the call. The arrow in the
  reason of the different-categories decision is U+2192, which is not a character of the
  type: the reason holds the three bytes of its UTF-8 form.
\<close>

definition decideByCategory :: "env \<Rightarrow> decision_cache \<Rightarrow> Event \<Rightarrow> Event
    \<Rightarrow> BoundaryDecision \<times> decision_cache" where
  "decideByCategory E cache prevEv currEv =
     (let prevCat = getCategoryForEvent E prevEv; currCat = getCategoryForEvent E currEv
      in if truthy_opt prevCat \<and> truthy_opt currCat then
           (if prevCat = currCat then
              (\<lparr>shouldMerge = True, confidence = 85 / 100,
                reason = ''Same category ('' @ the prevCat @ '')'',
                suggestedCategory = None\<rparr>, cache)
            else
              (\<lparr>shouldMerge = False, confidence = 9 / 10,
                reason = ''Different categories ('' @ the prevCat
                   @ [CHR '' '', CHR 0xE2, CHR 0x86, CHR 0x92, CHR '' ''] @ the currCat @ '')'',
                suggestedCategory = None\<rparr>, cache))
         else
           let uncategorizedItem =
                 (if \<not> truthy_opt currCat
                  then (if isBrowser (appName currEv) then ''domain'' else ''app'',
                        getUncategorizedValue E currEv)
                  else (if isBrowser (appName prevEv) then ''domain'' else ''app'',
                        getUncategorizedValue E prevEv));
               cacheKey = buildCacheKey E prevEv currEv
           in case cache cacheKey of
                Some cached \<Rightarrow> (cached, cache)
              | None \<Rightarrow>
                if isModelAvailable E then
                  (let aiDecision = askAIForBoundary E prevEv currEv;
                       cache' = cache(cacheKey \<mapsto> aiDecision)
                   in if truthy_opt (suggestedCategory aiDecision)
                         \<and> confidence aiDecision \<ge> 6 / 10
                         \<and> \<not> createOrUpdateSuggestion E (fst uncategorizedItem)
                               (snd uncategorizedItem) (the (suggestedCategory aiDecision))
                               (confidence aiDecision)
                      then (conservative_split, cache')
                      else (aiDecision, cache'))
                else (conservative_split, cache))"

function string_of_nat :: "nat \<Rightarrow> string" where
  "string_of_nat n =
     (if n < 10 then [''0123456789'' ! n]
      else string_of_nat (n div 10) @ [''0123456789'' ! (n mod 10)])"
  by pat_completeness auto
termination
  by (relation "measure id") auto

text \<open>\<open>Math.round(n / d)\<close> for integers \<open>n\<close> and \<open>d > 0\<close>: the nearest integer, halves up.\<close>

definition round_div :: "int \<Rightarrow> int \<Rightarrow> int" where
  "round_div n d = (2 * n + d) div (2 * d)"

definition shouldMergeEvents :: "env \<Rightarrow> decision_cache \<Rightarrow> Event \<Rightarrow> Event
    \<Rightarrow> BoundaryDecision \<times> decision_cache" where
  "shouldMergeEvents E cache prevEv currEv =
     (let gap_ms = timestamp currEv - timestamp prevEv
      in if gap_ms > MAX_SESSION_GAP * 1000 then
           (\<lparr>shouldMerge = False, confidence = 1,
             reason = ''Large time gap ('' @ string_of_nat (nat (round_div gap_ms 60000))
                @ ''min)'',
             suggestedCategory = None\<rparr>, cache)
         else if isIdle prevEv \<and> duration_or_5 prevEv > IDLE_THRESHOLD then
           (\<lparr>shouldMerge = False, confidence = 1, reason = ''Extended idle period'',
             suggestedCategory = None\<rparr>, cache)
         else if appName prevEv = appName currEv then
           (if isBrowser (appName prevEv) \<and> truthy_opt (url prevEv) \<and> truthy_opt (url currEv) then
              (if extractDomain E (url prevEv) = extractDomain E (url currEv) then
                 (\<lparr>shouldMerge = True, confidence = 1, reason = ''Same app and domain'',
                   suggestedCategory = None\<rparr>, cache)
               else if areUrlsRelated E (url prevEv) (url currEv) then
                 (\<lparr>shouldMerge = True, confidence = 9 / 10,
                   reason = ''Related domains (same service ecosystem)'',
                   suggestedCategory = None\<rparr>, cache)
               else decideByCategory E cache prevEv currEv)
            else
              (\<lparr>shouldMerge = True, confidence = 1, reason = ''Same application'',
                suggestedCategory = None\<rparr>, cache))
         else if areAppsRelated (appName prevEv) (appName currEv) then
           (let prevCat = getCategoryForEvent E prevEv; currCat = getCategoryForEvent E currEv
            in if truthy_opt prevCat \<and> truthy_opt currCat \<and> prevCat = currCat then
                 (\<lparr>shouldMerge = True, confidence = 9 / 10,
                   reason = ''Related apps in same category ('' @ the prevCat @ '')'',
                   suggestedCategory = None\<rparr>, cache)
               else
                 (\<lparr>shouldMerge = True, confidence = 75 / 100,
                   reason = ''Related application group'', suggestedCategory = None\<rparr>, cache))
         else decideByCategory E cache prevEv currEv)"

section \<open>Session aggregation (services/sessions.ts)\<close>

datatype session_kind = Active | Idle

text \<open>
  \<open>session_start\<close> and \<open>session_end\<close> are the instants whose \<open>toISOString()\<close> the source
  stores, in milliseconds since the epoch; \<open>session_duration\<close> is in seconds. The fields
  that the schema marks optional are options.
\<close>

record ActivitySession =
  session_id :: string
  session_start :: int
  session_end :: int
  session_duration :: int
  session_type :: session_kind
  category :: "string option"
  apps :: "string list option"
  contexts :: "string list option"
  contextSwitches :: "nat option"
  precedingCategory :: "string option"

text \<open>The accumulator \<open>currentSession\<close>; \<open>cur_apps\<close> is the \<open>Set\<close> in insertion order.\<close>

record currentSession =
  cur_events :: "Event list"
  cur_contexts :: "ExtractedContext list"
  cur_apps :: "string list"
  cur_contextSwitches :: nat
  cur_category :: "string option"

definition VALID_CATEGORIES :: "string list" where
  "VALID_CATEGORIES =
     [''development'', ''design'', ''communication'', ''research'', ''distraction'', ''other'']"

definition toActivityCategory :: "string option \<Rightarrow> string" where
  "toActivityCategory cat =
     (if truthy_opt cat \<and> the cat \<in> set VALID_CATEGORIES then the cat else ''other'')"

fun dedup_from :: "string list \<Rightarrow> ExtractedContext list \<Rightarrow> string list" where
  "dedup_from seen [] = []"
| "dedup_from seen (ctx # ctxs) =
     (let normalized = trim (toLowerCase (ctx_value ctx))
      in if normalized \<notin> set seen \<and> length (ctx_value ctx) > 0
         then ctx_value ctx # dedup_from (normalized # seen) ctxs
         else dedup_from seen ctxs)"

definition deduplicateContexts :: "ExtractedContext list \<Rightarrow> string list" where
  "deduplicateContexts ctxs = dedup_from [] ctxs"

definition set_add :: "string list \<Rightarrow> string \<Rightarrow> string list" where
  "set_add xs x = (if x \<in> set xs then xs else xs @ [x])"

text \<open>
  \<open>finalizeSession\<close> reads \<open>session.events[0]\<close> and the last event; on an accumulator
  without events the source fails with a TypeError, which is \<open>None\<close>. \<open>n\<close> counts the
  calls of \<open>randomUUID\<close> made so far.
\<close>

definition finalizeSession :: "env \<Rightarrow> nat \<Rightarrow> currentSession \<Rightarrow> ActivitySession option" where
  "finalizeSession E n session =
     (case cur_events session of
        [] \<Rightarrow> None
      | firstEvent # _ \<Rightarrow>
          let lastEvent = last (cur_events session);
              start = timestamp firstEvent;
              end_ms = timestamp lastEvent + duration_or_5 lastEvent * 1000
          in Some \<lparr>session_id = randomUUID E n,
                   session_start = start,
                   session_end = end_ms,
                   session_duration = round_div (end_ms - start) 1000,
                   session_type = Active,
                   category = Some (toActivityCategory (cur_category session)),
                   apps = Some (cur_apps session),
                   contexts = Some (take 10 (deduplicateContexts (cur_contexts session))),
                   contextSwitches = Some (cur_contextSwitches session),
                   precedingCategory = None\<rparr>)"

definition eventContext :: "env \<Rightarrow> Event \<Rightarrow> ExtractedContext list" where
  "eventContext E event =
     (case extractContext (title_extractors E) (appName event) (windowTitle event) (url event)
             (documentPath event) of
        None \<Rightarrow> []
      | Some ctx \<Rightarrow> [ctx])"

definition startSession :: "env \<Rightarrow> Event \<Rightarrow> currentSession" where
  "startSession E event =
     \<lparr>cur_events = [event],
      cur_contexts = eventContext E event,
      cur_apps = [appName event],
      cur_contextSwitches = 0,
      cur_category = getCategoryForEvent E event\<rparr>"

definition mergeEvent :: "env \<Rightarrow> currentSession \<Rightarrow> Event \<Rightarrow> Event \<Rightarrow> currentSession" where
  "mergeEvent E session prevEvent event =
     \<lparr>cur_events = cur_events session @ [event],
      cur_contexts = cur_contexts session @ eventContext E event,
      cur_apps = set_add (cur_apps session) (appName event),
      cur_contextSwitches =
        (if appName prevEvent \<noteq> appName event then cur_contextSwitches session + 1
         else if truthy_opt (url event) \<and> truthy_opt (url prevEvent) then
           (if extractDomain E (url prevEvent) \<noteq> extractDomain E (url event)
            then cur_contextSwitches session + 1 else cur_contextSwitches session)
         else cur_contextSwitches session),
      cur_category =
        (if \<not> truthy_opt (cur_category session) then getCategoryForEvent E event
         else cur_category session)\<rparr>"

text \<open>
  The variables of the loop of \<open>aggregateToSessions\<close>, with the decision cache of the
  boundary service and the number of \<open>randomUUID\<close> calls made.
\<close>

record agg_state =
  sessions :: "ActivitySession list"
  current :: "currentSession option"
  aiDecisionCache :: decision_cache
  uuid_calls :: nat

definition idleSession :: "env \<Rightarrow> nat \<Rightarrow> Event \<Rightarrow> string option \<Rightarrow> ActivitySession" where
  "idleSession E n event precedingCat =
     \<lparr>session_id = randomUUID E n,
      session_start = timestamp event,
      session_end = timestamp event + duration_or_5 event * 1000,
      session_duration = duration_or_5 event,
      session_type = Idle,
      category = None,
      apps = None,
      contexts = None,
      contextSwitches = None,
      precedingCategory = precedingCat\<rparr>"

text \<open>The idle branch after any open session has been closed.\<close>

definition idleStep :: "env \<Rightarrow> agg_state \<Rightarrow> Event \<Rightarrow> agg_state" where
  "idleStep E st event =
     (if sessions st \<noteq> [] \<and> session_type (last (sessions st)) = Idle then
        st\<lparr>sessions := butlast (sessions st) @
             [(last (sessions st))
                \<lparr>session_end := timestamp event,
                 session_duration := session_duration (last (sessions st))
                    + duration_or_5 event\<rparr>]\<rparr>
      else
        st\<lparr>sessions := sessions st @
             [idleSession E (uuid_calls st) event
                (if sessions st = [] then None else category (last (sessions st)))],
           uuid_calls := uuid_calls st + 1\<rparr>)"

text \<open>
  One iteration of the loop. \<open>None\<close> is the TypeError of reading the last event of an
  accumulator that has no events.
\<close>

definition processEvent :: "env \<Rightarrow> agg_state \<Rightarrow> Event \<Rightarrow> agg_state option" where
  "processEvent E st event =
     (if isIdle event then
        (case current st of
           Some session \<Rightarrow>
             (case finalizeSession E (uuid_calls st) session of
                Some s \<Rightarrow>
                  Some (idleStep E
                    (st\<lparr>sessions := sessions st @ [s], current := None,
                        uuid_calls := uuid_calls st + 1\<rparr>) event)
              | None \<Rightarrow> Some (idleStep E st event))
         | None \<Rightarrow> Some (idleStep E st event))
      else
        (case current st of
           None \<Rightarrow> Some (st\<lparr>current := Some (startSession E event)\<rparr>)
         | Some session \<Rightarrow>
             if cur_events session = [] then None
             else
               let prevEvent = last (cur_events session);
                   (decision, cache') = shouldMergeEvents E (aiDecisionCache st) prevEvent event
               in if shouldMerge decision \<and> confidence decision \<ge> 7 / 10 then
                    Some (st\<lparr>current := Some (mergeEvent E session prevEvent event),
                            aiDecisionCache := cache'\<rparr>)
                  else
                    (case finalizeSession E (uuid_calls st) session of
                       None \<Rightarrow> None
                     | Some s \<Rightarrow>
                         Some (st\<lparr>sessions := sessions st @ [s],
                                 current := Some (startSession E event),
                                 aiDecisionCache := cache',
                                 uuid_calls := uuid_calls st + 1\<rparr>))))"

fun processEvents :: "env \<Rightarrow> agg_state \<Rightarrow> Event list \<Rightarrow> agg_state option" where
  "processEvents E st [] = Some st"
| "processEvents E st (event # rest) =
     (case processEvent E st event of
        None \<Rightarrow> None
      | Some st' \<Rightarrow> processEvents E st' rest)"

text \<open>After the loop: \<open>if (currentSession && currentSession.events.length > 0)\<close>.\<close>

definition finalizeLast :: "env \<Rightarrow> agg_state \<Rightarrow> ActivitySession list" where
  "finalizeLast E st =
     (case current st of
        None \<Rightarrow> sessions st
      | Some session \<Rightarrow>
          (case finalizeSession E (uuid_calls st) session of
             None \<Rightarrow> sessions st
           | Some s \<Rightarrow> sessions st @ [s]))"

definition initial_state :: "decision_cache \<Rightarrow> agg_state" where
  "initial_state cache =
     \<lparr>sessions = [], current = None, aiDecisionCache = cache, uuid_calls = 0\<rparr>"

text \<open>
  \<open>aggregateToSessions\<close> returns the sessions; the model returns with them the decision
  cache that the run leaves behind.
\<close>

definition aggregateToSessions :: "env \<Rightarrow> decision_cache \<Rightarrow> Event list
    \<Rightarrow> (ActivitySession list \<times> decision_cache) option" where
  "aggregateToSessions E cache rawEvents =
     (if length rawEvents = 0 then Some ([], cache)
      else case processEvents E (initial_state cache) rawEvents of
        None \<Rightarrow> None
      | Some st \<Rightarrow> Some (finalizeLast E st, aiDecisionCache st))"

section \<open>Notions used in the statements\<close>

text \<open>Every open accumulator has an event, as every accumulator that the loop builds has.\<close>

definition wf_state :: "agg_state \<Rightarrow> bool" where
  "wf_state st = (\<forall>session. current st = Some session \<longrightarrow> cur_events session \<noteq> [])"


text \<open>
  Concrete inputs: extractors that find nothing, a service whose category lookup was never
  refreshed and that has no AI model, and an event with default columns.
\<close>

definition no_extractors :: extractors where
  "no_extractors =
     \<lparr>ide_extractor = (\<lambda>_ _. None), terminal_extractor = (\<lambda>_ _. None),
      design_extractor = (\<lambda>_ _. None), communication_extractor = (\<lambda>_ _. None),
      extractBrowserContext = (\<lambda>_ _. None)\<rparr>"

definition bare_env :: env where
  "bare_env =
     \<lparr>url_hostname = (\<lambda>_. None), regexp_test_i = (\<lambda>_ _. False), categoryLookup = None,
      isModelAvailable = False, callHaiku = (\<lambda>_ _. Failed),
      createOrUpdateSuggestion = (\<lambda>_ _ _ _. True), randomUUID = string_of_nat,
      title_extractors = no_extractors\<rparr>"

definition event_at :: "int \<Rightarrow> string \<Rightarrow> bool \<Rightarrow> Event" where
  "event_at t app idle =
     \<lparr>timestamp = t, appName = app, windowTitle = ''main'', bundleIdentifier = None,
      documentPath = None, url = None, isIdle = idle, duration = None\<rparr>"

definition long_title :: string where
  "long_title = replicate 90 (CHR ''x'')"

text \<open>A refreshed lookup that maps the applications Cursor and Ghostty to development.\<close>

definition dev_lookup :: CategoryLookup where
  "dev_lookup =
     \<lparr>lookup_apps = [''Cursor'' \<mapsto> ''development'', ''Ghostty'' \<mapsto> ''development''],
      lookup_bundles = Map.empty, lookup_domains = Map.empty, domainPatterns = []\<rparr>"

definition dev_env :: env where
  "dev_env = bare_env\<lparr>categoryLookup := Some dev_lookup\<rparr>"

text \<open>
  A decision cache that holds a merge decision of the given confidence for the pair of
  applications Notes and Spotify, and the state of the loop after a first, active event.
\<close>

definition cached_decision :: "rat \<Rightarrow> decision_cache" where
  "cached_decision conf =
     [''Notes|Spotify'' \<mapsto>
        \<lparr>shouldMerge = True, confidence = conf, reason = ''cached'', suggestedCategory = None\<rparr>]"

definition after_first :: "env \<Rightarrow> decision_cache \<Rightarrow> Event \<Rightarrow> agg_state" where
  "after_first E cache e = (initial_state cache)\<lparr>current := Some (startSession E e)\<rparr>"

text \<open>
  A service with an AI model that answers every question alike: whether the two events
  are one session, with confidence 0.9 and the suggested category \<open>cat\<close>; \<open>stored\<close> tells
  whether the write of a suggestion succeeds.
\<close>

definition answering_env :: "bool \<Rightarrow> string option \<Rightarrow> bool \<Rightarrow> env" where
  "answering_env same cat stored =
     bare_env\<lparr>isModelAvailable := True,
              callHaiku := (\<lambda>_ _. Parsed same (Some (9 / 10)) None cat),
              createOrUpdateSuggestion := (\<lambda>_ _ _ _. stored)\<rparr>"

text \<open>A session without its identifier, and two loop states that differ in identifiers only.\<close>

definition erase_id :: "ActivitySession \<Rightarrow> ActivitySession" where
  "erase_id s = s\<lparr>session_id := []\<rparr>"

definition same_but_ids :: "agg_state \<Rightarrow> agg_state \<Rightarrow> bool" where
  "same_but_ids a b =
     (map erase_id (sessions a) = map erase_id (sessions b) \<and> current a = current b
      \<and> aiDecisionCache a = aiDecisionCache b)"

text \<open>Two identifier sources that give different values.\<close>

definition uuid_a :: "nat \<Rightarrow> string" where
  "uuid_a n = ''a'' @ string_of_nat n"

definition uuid_b :: "nat \<Rightarrow> string" where
  "uuid_b n = ''b'' @ string_of_nat n"

text \<open>
  An event ends no later than the next one starts; two consecutive events in the order
  of their timestamps that do not overlap; a session ends no later than the next starts.
\<close>

definition no_overlap :: "Event \<Rightarrow> Event \<Rightarrow> bool" where
  "no_overlap a b = (timestamp a + duration_or_5 a * 1000 \<le> timestamp b)"

definition in_order :: "Event \<Rightarrow> Event \<Rightarrow> bool" where
  "in_order a b = (timestamp a \<le> timestamp b \<and> no_overlap a b)"

definition sessions_apart :: "ActivitySession \<Rightarrow> ActivitySession \<Rightarrow> bool" where
  "sessions_apart a b = (session_end a \<le> session_start b)"

text \<open>
  The loop invariants for the order of the sessions, in terms of the events \<open>es\<close> that
  remain to be processed.
\<close>

definition starts_inv :: "agg_state \<Rightarrow> Event list \<Rightarrow> bool" where
  "starts_inv st es =
     (sorted (map timestamp es) \<and> sorted (map session_start (sessions st))
      \<and> (\<forall>s \<in> set (sessions st). \<forall>e \<in> set es. session_start s \<le> timestamp e)
      \<and> (\<forall>session. current st = Some session \<longrightarrow>
            (\<forall>s \<in> set (sessions st). session_start s \<le> timestamp (hd (cur_events session)))
            \<and> (\<forall>e \<in> set es. timestamp (hd (cur_events session)) \<le> timestamp e)))"

definition chain_inv :: "agg_state \<Rightarrow> Event list \<Rightarrow> bool" where
  "chain_inv st es =
     (successively sessions_apart (sessions st)
      \<and> (case current st of
            None \<Rightarrow>
              successively in_order es
              \<and> (sessions st \<noteq> [] \<and> es \<noteq> [] \<longrightarrow>
                    session_end (last (sessions st)) \<le> timestamp (hd es))
          | Some session \<Rightarrow>
              successively in_order (last (cur_events session) # es)
              \<and> (sessions st \<noteq> [] \<longrightarrow>
                    session_end (last (sessions st)) \<le> timestamp (hd (cur_events session)))))"

text \<open>
  The maximal runs of consecutive idle events of an event sequence, in order: an idle
  event together with the idle events that follow it directly, then the runs of what
  comes after them.
\<close>

function idle_runs :: "Event list \<Rightarrow> Event list list" where
  "idle_runs [] = []"
| "idle_runs (e # es) =
     (if isIdle e then (e # takeWhile isIdle es) # idle_runs (dropWhile isIdle es)
      else idle_runs es)"
  by pat_completeness auto
termination
  by (relation "measure length") (auto intro: le_imp_less_Suc length_dropWhile_le)

definition is_idle_session :: "ActivitySession \<Rightarrow> bool" where
  "is_idle_session s = (session_type s = Idle)"

text \<open>
  Start, end and duration of the idle sessions of a list, and what the loop makes of them:
  \<open>run_view r\<close> is the idle session built from the run \<open>r\<close>, \<open>extend_view v r\<close> the session
  \<open>v\<close> after the idle events \<open>r\<close> have extended it.
\<close>

definition idle_views :: "ActivitySession list \<Rightarrow> (int \<times> int \<times> int) list" where
  "idle_views ss =
     map (\<lambda>s. (session_start s, session_end s, session_duration s)) (filter is_idle_session ss)"

definition extend_view :: "int \<times> int \<times> int \<Rightarrow> Event list \<Rightarrow> int \<times> int \<times> int" where
  "extend_view v r =
     (fst v, (if r = [] then fst (snd v) else timestamp (last r)),
      snd (snd v) + sum_list (map duration_or_5 r))"

definition run_view :: "Event list \<Rightarrow> int \<times> int \<times> int" where
  "run_view r =
     (timestamp (hd r),
      (if length r = 1 then timestamp (hd r) + duration_or_5 (hd r) * 1000
       else timestamp (last r)),
      sum_list (map duration_or_5 r))"

definition open_idle :: "agg_state \<Rightarrow> bool" where
  "open_idle st =
     (current st = None \<and> sessions st \<noteq> [] \<and> is_idle_session (last (sessions st)))"

definition expected_idle :: "agg_state \<Rightarrow> Event list \<Rightarrow> (int \<times> int \<times> int) list" where
  "expected_idle st es =
     (if open_idle st then
        butlast (idle_views (sessions st))
        @ [extend_view (last (idle_views (sessions st))) (takeWhile isIdle es)]
        @ map run_view (idle_runs (dropWhile isIdle es))
      else idle_views (sessions st) @ map run_view (idle_runs es))"

text \<open>
  The session \<open>s\<close> spans the events \<open>es\<close>: it starts with the first, ends when the last
  one ends, and its duration is the rounded difference.
\<close>

definition spans :: "ActivitySession \<Rightarrow> Event list \<Rightarrow> bool" where
  "spans s es =
     (es \<noteq> [] \<and> session_start s = timestamp (hd es)
      \<and> session_end s = timestamp (last es) + duration_or_5 (last es) * 1000
      \<and> session_duration s = round_div (session_end s - session_start s) 1000)"

section \<open>The regular expressions of domain patterns\<close>

text \<open>
  The JavaScript regular expressions that \<open>matchesDomainPattern\<close> can build from a
  pattern without other syntax characters than the dot and the star, and with the
  alternation bar: alternatives separated by \<open>|\<close>, each a sequence of literal characters,
  escaped dots \<open>\.\<close> and \<open>.*\<close>, with \<open>^\<close> allowed in front and \<open>$\<close> at the end. \<open>parse_items\<close>
  gives \<open>None\<close> for any other source. \<open>.\<close> matches every character but a line terminator;
  under the \<open>i\<close> flag letters match whatever their case. \<open>RegExp_test_i src s\<close> is
  \<open>new RegExp(src, "i").test(s)\<close>: some alternative matches some part of \<open>s\<close>, from the
  start of \<open>s\<close> when it begins with \<open>^\<close> and up to the end of \<open>s\<close> when it ends with \<open>$\<close>.
\<close>

datatype rx_item = Lit char | AnyRun

definition syntax_chars :: string where
  "syntax_chars = CHR 0x5C # ''^$.*+?()[]{}|''"

fun parse_items :: "string \<Rightarrow> rx_item list option" where
  "parse_items [] = Some []"
| "parse_items (c # cs) =
     (if c = CHR 0x5C then
        (case cs of
           [] \<Rightarrow> None
         | d # ds \<Rightarrow> if d = CHR ''.'' then map_option ((#) (Lit d)) (parse_items ds) else None)
      else if c = CHR ''.'' then
        (case cs of
           [] \<Rightarrow> None
         | d # ds \<Rightarrow> if d = CHR ''*'' then map_option ((#) AnyRun) (parse_items ds) else None)
      else if c \<in> set syntax_chars then None
      else map_option ((#) (Lit c)) (parse_items cs))"

definition line_terminator :: "char \<Rightarrow> bool" where
  "line_terminator c = ((of_char c :: nat) \<in> {10, 13})"

fun match_items :: "rx_item list \<Rightarrow> string \<Rightarrow> bool" where
  "match_items [] s = (s = [])"
| "match_items (Lit c # items) s =
     (case s of [] \<Rightarrow> False | d # ds \<Rightarrow> lower_char c = lower_char d \<and> match_items items ds)"
| "match_items (AnyRun # items) s =
     (match_items items s
      \<or> (case s of [] \<Rightarrow> False
          | d # ds \<Rightarrow> \<not> line_terminator d \<and> match_items (AnyRun # items) ds))"

fun split_bar :: "string \<Rightarrow> string list" where
  "split_bar [] = [[]]"
| "split_bar (c # cs) =
     (if c = CHR ''|'' then [] # split_bar cs
      else (case split_bar cs of [] \<Rightarrow> [[c]] | a # as \<Rightarrow> (c # a) # as))"

definition parse_alternative :: "string \<Rightarrow> (bool \<times> rx_item list \<times> bool) option" where
  "parse_alternative a =
     (let from_start = (a \<noteq> [] \<and> hd a = CHR ''^'');
          b = (if from_start then tl a else a);
          to_end = (b \<noteq> [] \<and> last b = CHR ''$'');
          body = (if to_end then butlast b else b)
      in map_option (\<lambda>items. (from_start, items, to_end)) (parse_items body))"

definition test_alternative :: "bool \<times> rx_item list \<times> bool \<Rightarrow> string \<Rightarrow> bool" where
  "test_alternative alt s =
     (case alt of (from_start, items, to_end) \<Rightarrow>
        list_ex (\<lambda>t. list_ex (match_items items) (if to_end then [t] else prefixes t))
          (if from_start then [s] else suffixes s))"

definition RegExp_test_i :: "string \<Rightarrow> string \<Rightarrow> bool option" where
  "RegExp_test_i src s =
     (let alts = map parse_alternative (split_bar src)
      in if list_all (\<lambda>a. a \<noteq> None) alts
         then Some (list_ex (\<lambda>a. test_alternative (the a) s) alts)
         else None)"

text \<open>
  A service whose lookup holds one domain pattern with an alternation bar, with the
  expressions above as its regular expressions and the host name of one URL.
\<close>

definition pattern_lookup :: CategoryLookup where
  "pattern_lookup =
     \<lparr>lookup_apps = Map.empty, lookup_bundles = Map.empty, lookup_domains = Map.empty,
      domainPatterns = [(''github.com|gitlab.com'', ''development'')]\<rparr>"

definition pattern_env :: env where
  "pattern_env =
     bare_env\<lparr>url_hostname :=
                (\<lambda>u. if u = ''https://github.com.evil.example/'' then Some ''github.com.evil.example''
                     else None),
              regexp_test_i := (\<lambda>src s. RegExp_test_i src s = Some True),
              categoryLookup := Some pattern_lookup\<rparr>"

definition evil_event :: Event where
  "evil_event =
     \<lparr>timestamp = 0, appName = ''Firefox'', windowTitle = ''main'', bundleIdentifier = None,
      documentPath = None, url = Some ''https://github.com.evil.example/'', isIdle = False,
      duration = None\<rparr>"

text \<open>
  What the claim says of a wildcard pattern: the star stands for any run of characters,
  every other character for itself whatever the letter case, and the pattern has to
  match the whole domain.
\<close>

fun wildcard_match :: "string \<Rightarrow> string \<Rightarrow> bool" where
  "wildcard_match [] d = (d = [])"
| "wildcard_match (c # p) d =
     (if c = CHR ''*'' then
        (wildcard_match p d
         \<or> (case d of [] \<Rightarrow> False
             | x # ds \<Rightarrow> \<not> line_terminator x \<and> wildcard_match (c # p) ds))
      else (case d of [] \<Rightarrow> False | x # ds \<Rightarrow> lower_char c = lower_char x \<and> wildcard_match p ds))"

definition plain_pattern :: "string \<Rightarrow> bool" where
  "plain_pattern p = (\<forall>c \<in> set p. c \<notin> set (CHR 0x5C # ''^$+?()[]{}|''))"

text \<open>
  The translation of one pattern character by the two \<open>replace\<close> calls, the item it
  becomes, and a platform whose regular expressions agree with the expressions above.
\<close>

definition encode_char :: "char \<Rightarrow> string" where
  "encode_char c =
     (if c = CHR ''.'' then [CHR 0x5C, CHR ''.''] else if c = CHR ''*'' then ''.*'' else [c])"

definition item_of :: "char \<Rightarrow> rx_item" where
  "item_of c = (if c = CHR ''*'' then AnyRun else Lit c)"

definition regexp_conforms :: "env \<Rightarrow> bool" where
  "regexp_conforms E = (\<forall>src s b. RegExp_test_i src s = Some b \<longrightarrow> regexp_test_i E src s = b)"

text \<open>
  The member events of the sessions. The loop of \<open>aggregateToSessions\<close> keeps the events
  of the open active session in \<open>currentSession.events\<close>; an idle event opens an idle
  session or extends the idle session that is last in \<open>sessions\<close>. \<open>sessionEvents\<close> follows
  the loop and keeps the events only: \<open>past\<close> holds, in order, the events of each session
  pushed so far and \<open>cur\<close> the events of the accumulator, \<open>[]\<close> when there is none. The
  last pushed session is idle exactly when its events are.
\<close>

fun sessionEvents :: "env \<Rightarrow> decision_cache \<Rightarrow> Event list list \<Rightarrow> Event list \<Rightarrow> Event list
    \<Rightarrow> Event list list" where
  "sessionEvents E cache past cur [] = (if cur = [] then past else past @ [cur])"
| "sessionEvents E cache past cur (event # rest) =
     (if isIdle event then
        (let pushed = (if cur = [] then past else past @ [cur])
         in if pushed \<noteq> [] \<and> list_all isIdle (last pushed)
            then sessionEvents E cache (butlast pushed @ [last pushed @ [event]]) [] rest
            else sessionEvents E cache (pushed @ [[event]]) [] rest)
      else if cur = [] then sessionEvents E cache past [event] rest
      else
        (case shouldMergeEvents E cache (last cur) event of
           (decision, cache') \<Rightarrow>
             if shouldMerge decision \<and> confidence decision \<ge> 7 / 10
             then sessionEvents E cache' past (cur @ [event]) rest
             else sessionEvents E cache' (past @ [cur]) [event] rest))"

definition memberEvents :: "env \<Rightarrow> decision_cache \<Rightarrow> Event list \<Rightarrow> Event list list" where
  "memberEvents E cache evs = sessionEvents E cache [] [] evs"

text \<open>
  The session \<open>s\<close> has the member events \<open>es\<close>: an active session spans active events, and
  an idle session has the start, end and duration that the loop gives to the idle events
  \<open>es\<close>. \<open>grouped st past cur\<close> relates a state of the loop to the events of its sessions
  and of its accumulator.
\<close>

definition members_of :: "ActivitySession \<Rightarrow> Event list \<Rightarrow> bool" where
  "members_of s es =
     (es \<noteq> []
      \<and> (session_type s = Active \<longrightarrow> list_all (\<lambda>e. \<not> isIdle e) es \<and> spans s es)
      \<and> (session_type s = Idle \<longrightarrow>
            list_all isIdle es
            \<and> (session_start s, session_end s, session_duration s) = run_view es))"

definition grouped :: "agg_state \<Rightarrow> Event list list \<Rightarrow> Event list \<Rightarrow> bool" where
  "grouped st past cur =
     (list_all2 members_of (sessions st) past
      \<and> cur = (case current st of None \<Rightarrow> [] | Some session \<Rightarrow> cur_events session)
      \<and> list_all (\<lambda>e. \<not> isIdle e) cur)"

section \<open>The loop never fails\<close>

lemma finalizeSession_None:
  "finalizeSession E n session = None \<longleftrightarrow> cur_events session = []"
  by (cases "cur_events session") (simp_all add: finalizeSession_def Let_def)

lemma idleStep_current [simp]: "current (idleStep E st e) = current st"
  by (simp add: idleStep_def)

lemma cur_events_startSession [simp]: "cur_events (startSession E e) = [e]"
  by (simp add: startSession_def)

lemma cur_events_mergeEvent [simp]:
  "cur_events (mergeEvent E session p e) = cur_events session @ [e]"
  by (simp add: mergeEvent_def)

text \<open>The five ways an iteration can go, from a state whose accumulator has an event.\<close>

lemma processEvent_cases [consumes 2, case_names idle_open idle_none start merge split]:
  assumes "processEvent E st e = Some st'" and "wf_state st"
  obtains
    session s where "isIdle e" "current st = Some session"
      "finalizeSession E (uuid_calls st) session = Some s"
      "st' = idleStep E (st\<lparr>sessions := sessions st @ [s], current := None,
                uuid_calls := uuid_calls st + 1\<rparr>) e"
  | "isIdle e" "current st = None" "st' = idleStep E st e"
  | "\<not> isIdle e" "current st = None" "st' = st\<lparr>current := Some (startSession E e)\<rparr>"
  | session d c where "\<not> isIdle e" "current st = Some session" "cur_events session \<noteq> []"
      "shouldMergeEvents E (aiDecisionCache st) (last (cur_events session)) e = (d, c)"
      "shouldMerge d" "7 / 10 \<le> confidence d"
      "st' = st\<lparr>current := Some (mergeEvent E session (last (cur_events session)) e),
                aiDecisionCache := c\<rparr>"
  | session d c s where "\<not> isIdle e" "current st = Some session" "cur_events session \<noteq> []"
      "shouldMergeEvents E (aiDecisionCache st) (last (cur_events session)) e = (d, c)"
      "\<not> (shouldMerge d \<and> 7 / 10 \<le> confidence d)"
      "finalizeSession E (uuid_calls st) session = Some s"
      "st' = st\<lparr>sessions := sessions st @ [s], current := Some (startSession E e),
                aiDecisionCache := c, uuid_calls := uuid_calls st + 1\<rparr>"
proof (cases "current st")
  case None
  then show ?thesis
    using assms that(2,3) by (cases "isIdle e") (auto simp: processEvent_def)
next
  case (Some session)
  with assms(2) have ne: "cur_events session \<noteq> []"
    by (simp add: wf_state_def)
  then obtain s where fin: "finalizeSession E (uuid_calls st) session = Some s"
    using finalizeSession_None[of E "uuid_calls st" session]
    by (cases "finalizeSession E (uuid_calls st) session") auto
  show ?thesis
  proof (cases "isIdle e")
    case True
    with assms(1) Some fin that(1) show ?thesis
      by (auto simp: processEvent_def)
  next
    case False
    obtain d c where
      dc: "shouldMergeEvents E (aiDecisionCache st) (last (cur_events session)) e = (d, c)"
      by (cases "shouldMergeEvents E (aiDecisionCache st) (last (cur_events session)) e") auto
    show ?thesis
    proof (cases "shouldMerge d \<and> 7 / 10 \<le> confidence d")
      case True
      with assms(1) Some ne False dc
      have "st' = st\<lparr>current := Some (mergeEvent E session (last (cur_events session)) e),
                aiDecisionCache := c\<rparr>"
        by (simp add: processEvent_def)
      with that(4)[OF False Some ne dc] True show ?thesis
        by blast
    next
      case no: False
      with assms(1) Some ne False dc fin
      have "st' = st\<lparr>sessions := sessions st @ [s], current := Some (startSession E e),
                aiDecisionCache := c, uuid_calls := uuid_calls st + 1\<rparr>"
        by (auto simp add: processEvent_def)
      with that(5)[OF False Some ne dc no fin] show ?thesis
        by blast
    qed
  qed
qed

lemma processEvent_total:
  assumes "wf_state st"
  shows "\<exists>st'. processEvent E st e = Some st'"
proof (cases "current st")
  case None
  then show ?thesis
    by (simp add: processEvent_def)
next
  case (Some session)
  with assms have ne: "cur_events session \<noteq> []"
    by (simp add: wf_state_def)
  then obtain s where fin: "finalizeSession E (uuid_calls st) session = Some s"
    using finalizeSession_None[of E "uuid_calls st" session]
    by (cases "finalizeSession E (uuid_calls st) session") auto
  show ?thesis
    using Some ne fin by (simp add: processEvent_def Let_def split: prod.splits)
qed

lemma processEvent_wf:
  assumes "processEvent E st e = Some st'" and "wf_state st"
  shows "wf_state st'"
  using assms by (cases rule: processEvent_cases) (simp_all add: wf_state_def)

lemma processEvents_total:
  "wf_state st \<Longrightarrow> \<exists>st'. processEvents E st es = Some st' \<and> wf_state st'"
proof (induction es arbitrary: st)
  case Nil
  then show ?case
    by simp
next
  case (Cons e es)
  from processEvent_total[OF Cons.prems, of E e]
  obtain st1 where st1: "processEvent E st e = Some st1"
    by blast
  with processEvent_wf[OF st1 Cons.prems] Cons.IH[of st1] show ?case
    by simp
qed

lemma wf_initial [simp]: "wf_state (initial_state cache)"
  by (simp add: wf_state_def initial_state_def)

lemma aggregateToSessions_total:
  "\<exists>ss c. aggregateToSessions E cache evs = Some (ss, c)"
  using processEvents_total[OF wf_initial, of E cache evs]
  by (auto simp: aggregateToSessions_def)

section \<open>Idle runs and the member events of the sessions\<close>

lemma idle_views_snoc:
  "idle_views (ss @ [s]) =
     (if is_idle_session s
      then idle_views ss @ [(session_start s, session_end s, session_duration s)]
      else idle_views ss)"
  by (simp add: idle_views_def)

lemma idle_views_last:
  assumes "ss \<noteq> []" and "is_idle_session (last ss)"
  shows "idle_views ss = idle_views (butlast ss)
     @ [(session_start (last ss), session_end (last ss), session_duration (last ss))]"
proof -
  from assms(1) have "ss = butlast ss @ [last ss]"
    by simp
  then have "idle_views ss = idle_views (butlast ss @ [last ss])"
    by simp
  with assms(2) show ?thesis
    by (simp only: idle_views_snoc if_True)
qed

lemma run_view_Cons:
  "run_view (e # r)
     = extend_view (timestamp e, timestamp e + duration_or_5 e * 1000, duration_or_5 e) r"
  by (cases r) (simp_all add: run_view_def extend_view_def)

lemma extend_view_Cons:
  "extend_view (a, b, d) (e # r) = extend_view (a, timestamp e, d + duration_or_5 e) r"
  by (simp add: extend_view_def)

lemma extend_view_Nil [simp]: "extend_view v [] = v"
  by (simp add: extend_view_def)

lemma finalizeSession_active:
  "finalizeSession E n session = Some s \<Longrightarrow> \<not> is_idle_session s"
  by (cases "cur_events session") (auto simp: finalizeSession_def Let_def is_idle_session_def)

lemma idleStep_expected:
  assumes none: "current st = None" and idle: "isIdle e"
  shows "expected_idle (idleStep E st e) es = expected_idle st (e # es)"
proof (cases "sessions st \<noteq> [] \<and> session_type (last (sessions st)) = Idle")
  case True
  let ?l = "last (sessions st)"
  let ?x = "?l\<lparr>session_end := timestamp e,
      session_duration := session_duration ?l + duration_or_5 e\<rparr>"
  from True have step: "idleStep E st e = st\<lparr>sessions := butlast (sessions st) @ [?x]\<rparr>"
    by (simp add: idleStep_def)
  from True none have op: "open_idle st"
    by (simp add: open_idle_def is_idle_session_def)
  from True none have op': "open_idle (st\<lparr>sessions := butlast (sessions st) @ [?x]\<rparr>)"
    by (simp add: open_idle_def is_idle_session_def)
  from True have v: "idle_views (sessions st) = idle_views (butlast (sessions st))
     @ [(session_start ?l, session_end ?l, session_duration ?l)]"
    by (intro idle_views_last) (simp_all add: is_idle_session_def)
  from True have v': "idle_views (butlast (sessions st) @ [?x]) = idle_views (butlast (sessions st))
     @ [(session_start ?l, timestamp e, session_duration ?l + duration_or_5 e)]"
    by (simp add: idle_views_snoc is_idle_session_def)
  show ?thesis
    unfolding step expected_idle_def using op op' idle
    by (simp add: v v' extend_view_Cons)
next
  case False
  let ?i = "idleSession E (uuid_calls st) e
           (if sessions st = [] then None else category (last (sessions st)))"
  from False have step: "idleStep E st e = st\<lparr>sessions := sessions st @ [?i],
        uuid_calls := uuid_calls st + 1\<rparr>"
    by (auto simp: idleStep_def)
  from False none have op: "\<not> open_idle st"
    by (auto simp: open_idle_def is_idle_session_def)
  from none have op': "open_idle (st\<lparr>sessions := sessions st @ [?i],
        uuid_calls := uuid_calls st + 1\<rparr>)"
    by (simp add: open_idle_def is_idle_session_def idleSession_def)
  have v': "idle_views (sessions st @ [?i]) = idle_views (sessions st)
     @ [(timestamp e, timestamp e + duration_or_5 e * 1000, duration_or_5 e)]"
    by (simp add: idle_views_snoc is_idle_session_def idleSession_def)
  show ?thesis
    unfolding step expected_idle_def using op op' idle
    by (simp add: v' run_view_Cons)
qed

lemma expected_idle_active_event:
  assumes "\<not> isIdle e" and "\<not> open_idle st'" and "idle_views (sessions st') = idle_views (sessions st)"
  shows "expected_idle st' es = expected_idle st (e # es)"
proof (cases "open_idle st")
  case True
  then have "sessions st \<noteq> []" "is_idle_session (last (sessions st))"
    by (simp_all add: open_idle_def)
  from idle_views_last[OF this] have "idle_views (sessions st) \<noteq> []"
    by simp
  with True assms show ?thesis
    by (simp add: expected_idle_def)
next
  case False
  with assms show ?thesis
    by (simp add: expected_idle_def)
qed

lemma processEvent_expected_idle:
  assumes wf: "wf_state st" and run: "processEvent E st e = Some st'"
  shows "expected_idle st' es = expected_idle st (e # es)"
  using run wf
proof (cases rule: processEvent_cases)
  case (idle_open session s)
  let ?st1 = "st\<lparr>sessions := sessions st @ [s], current := None,
                uuid_calls := uuid_calls st + 1\<rparr>"
  have "expected_idle (idleStep E ?st1 e) es = expected_idle ?st1 (e # es)"
    using idle_open(1) by (intro idleStep_expected) simp_all
  moreover have "\<not> open_idle ?st1" "\<not> open_idle st"
    using finalizeSession_active[OF idle_open(3)] idle_open(2) by (simp_all add: open_idle_def)
  moreover have "idle_views (sessions ?st1) = idle_views (sessions st)"
    using finalizeSession_active[OF idle_open(3)] by (simp add: idle_views_snoc)
  ultimately show ?thesis
    using idle_open(4) by (simp add: expected_idle_def)
next
  case idle_none
  with idleStep_expected[of st e E es] show ?thesis
    by simp
next
  case start
  then show ?thesis
    by (intro expected_idle_active_event) (simp_all add: open_idle_def)
next
  case (merge session d c)
  then show ?thesis
    by (intro expected_idle_active_event) (simp_all add: open_idle_def)
next
  case (split session d c s)
  then show ?thesis
    using finalizeSession_active[OF split(6)]
    by (intro expected_idle_active_event) (simp_all add: open_idle_def idle_views_snoc)
qed

lemma processEvents_expected_idle:
  "wf_state st \<Longrightarrow> processEvents E st es = Some st' \<Longrightarrow>
   expected_idle st' [] = expected_idle st es"
proof (induction es arbitrary: st)
  case Nil
  then show ?case
    by simp
next
  case (Cons e es)
  from Cons.prems(2) obtain st1 where
    st1: "processEvent E st e = Some st1" "processEvents E st1 es = Some st'"
    by (auto split: option.splits)
  from Cons.IH[OF processEvent_wf[OF st1(1) Cons.prems(1)] st1(2)]
    processEvent_expected_idle[OF Cons.prems(1) st1(1), of es]
  show ?case
    by simp
qed

lemma finalizeLast_idle_views:
  "idle_views (finalizeLast E st) = expected_idle st []"
proof -
  have a: "idle_views (finalizeLast E st) = idle_views (sessions st)"
    by (auto simp: finalizeLast_def idle_views_snoc split: option.splits
        dest: finalizeSession_active)
  show ?thesis
  proof (cases "open_idle st")
    case True
    then have "sessions st \<noteq> []" "is_idle_session (last (sessions st))"
      by (simp_all add: open_idle_def)
    from idle_views_last[OF this] have "idle_views (sessions st) \<noteq> []"
      by simp
    with True a show ?thesis
      by (simp add: expected_idle_def)
  next
    case False
    with a show ?thesis
      by (simp add: expected_idle_def)
  qed
qed

lemma idle_sessions_of_runs:
  "\<exists>ss c. aggregateToSessions E cache evs = Some (ss, c)
     \<and> idle_views ss = map run_view (idle_runs evs)"
proof (cases "evs = []")
  case True
  then show ?thesis
    by (simp add: aggregateToSessions_def idle_views_def)
next
  case False
  obtain st where st: "processEvents E (initial_state cache) evs = Some st"
    using processEvents_total[OF wf_initial] by blast
  have "expected_idle (initial_state cache) evs = map run_view (idle_runs evs)"
    by (simp add: expected_idle_def open_idle_def initial_state_def idle_views_def)
  with processEvents_expected_idle[OF wf_initial st] finalizeLast_idle_views[of E st] st False
  show ?thesis
    by (simp add: aggregateToSessions_def)
qed


lemma concat_idle_runs: "concat (idle_runs es) = filter isIdle es"
proof (induction es rule: idle_runs.induct)
  case 1
  then show ?case
    by simp
next
  case (2 e es)
  have "filter isIdle (takeWhile isIdle es) = takeWhile isIdle es"
    by (induction es) auto
  then have "filter isIdle es = takeWhile isIdle es @ filter isIdle (dropWhile isIdle es)"
    by (metis filter_append takeWhile_dropWhile_id)
  with 2 show ?case
    by simp
qed

lemma idle_runs_props:
  "r \<in> set (idle_runs es) \<Longrightarrow>
   r \<noteq> [] \<and> set r \<subseteq> set es
   \<and> (sorted (map timestamp es) \<longrightarrow> sorted (map timestamp r))"
proof (induction es rule: idle_runs.induct)
  case 1
  then show ?case
    by simp
next
  case (2 e es)
  show ?case
  proof (cases "isIdle e")
    case False
    with 2 show ?thesis
      by auto
  next
    case True
    show ?thesis
    proof (cases "r = e # takeWhile isIdle es")
      case here: True
      have "sorted (map timestamp (e # takeWhile isIdle es))" if "sorted (map timestamp (e # es))"
        using that by (auto simp: sorted_map dest: set_takeWhileD)
      with here show ?thesis
        by (auto dest: set_takeWhileD)
    next
      case False
      with True "2.prems" have r: "r \<in> set (idle_runs (dropWhile isIdle es))"
        by simp
      have "sorted (map timestamp (dropWhile isIdle es))" if "sorted (map timestamp (e # es))"
        using that by (simp add: sorted_map)
      with "2.IH"(1)[OF True r] show ?thesis
        by (auto dest: set_dropWhileD)
    qed
  qed
qed

lemma finalizeSession_spans:
  assumes "finalizeSession E n session = Some s"
  shows "spans s (cur_events session)" and "session_type s = Active"
  using assms by (cases "cur_events session"; simp add: finalizeSession_def Let_def spans_def; force)+

lemma round_div_exact: "1000 dvd n \<Longrightarrow> round_div n 1000 * 1000 = n"
  by (auto simp: round_div_def elim!: dvdE)

lemma spans_exact:
  assumes "spans s es" and "\<forall>e \<in> set es. 1000 dvd timestamp e"
  shows "session_duration s * 1000 = session_end s - session_start s"
proof -
  from assms(1) have "es \<noteq> []"
    by (simp add: spans_def)
  then have "hd es \<in> set es" "last es \<in> set es"
    by simp_all
  with assms have "1000 dvd session_end s - session_start s"
    by (simp add: spans_def)
  from round_div_exact[OF this] assms(1) show ?thesis
    by (simp add: spans_def)
qed

lemma list_all2_snocD:
  assumes "list_all2 P xs ys" and "xs \<noteq> []"
  shows "ys \<noteq> []" and "list_all2 P (butlast xs) (butlast ys)" and "P (last xs) (last ys)"
proof -
  from assms show ne: "ys \<noteq> []"
    by auto
  from assms(1) have "length (butlast xs) = length (butlast ys)"
    by (simp add: list_all2_lengthD)
  moreover from assms ne have "list_all2 P (butlast xs @ [last xs]) (butlast ys @ [last ys])"
    by simp
  ultimately show "list_all2 P (butlast xs) (butlast ys)" and "P (last xs) (last ys)"
    by (simp_all add: list_all2_append)
qed

lemma run_view_snoc:
  assumes "r \<noteq> []" and "(a, b, d) = run_view r"
  shows "run_view (r @ [e]) = (a, timestamp e, d + duration_or_5 e)"
  using assms by (cases r) (simp_all add: run_view_def)

lemma idleStep_grouped:
  assumes none: "current st = None" and old: "list_all2 members_of (sessions st) past"
    and idle: "isIdle e"
  shows "list_all2 members_of (sessions (idleStep E st e))
           (if past \<noteq> [] \<and> list_all isIdle (last past)
            then butlast past @ [last past @ [e]] else past @ [[e]])"
proof (cases "sessions st \<noteq> [] \<and> session_type (last (sessions st)) = Idle")
  case True
  let ?l = "last (sessions st)"
  let ?x = "?l\<lparr>session_end := timestamp e,
      session_duration := session_duration ?l + duration_or_5 e\<rparr>"
  from True have step: "sessions (idleStep E st e) = butlast (sessions st) @ [?x]"
    by (simp add: idleStep_def)
  from True list_all2_snocD[OF old] have ne: "past \<noteq> []"
    and bl: "list_all2 members_of (butlast (sessions st)) (butlast past)"
    and la: "members_of ?l (last past)"
    by simp_all
  from la True have i: "list_all isIdle (last past)" "last past \<noteq> []"
    and v: "(session_start ?l, session_end ?l, session_duration ?l) = run_view (last past)"
    by (simp_all add: members_of_def)
  from run_view_snoc[OF i(2) v, of e] True i idle have "members_of ?x (last past @ [e])"
    by (simp add: members_of_def)
  moreover from bl have "length (butlast (sessions st)) = length (butlast past)"
    by (rule list_all2_lengthD)
  ultimately show ?thesis
    unfolding step using bl ne i by (simp add: list_all2_append)
next
  case False
  let ?i = "idleSession E (uuid_calls st) e
           (if sessions st = [] then None else category (last (sessions st)))"
  from False have step: "sessions (idleStep E st e) = sessions st @ [?i]"
    by (auto simp: idleStep_def)
  have m: "members_of ?i [e]"
    using idle by (simp add: members_of_def idleSession_def run_view_def)
  have "\<not> (past \<noteq> [] \<and> list_all isIdle (last past))"
  proof (cases "sessions st = []")
    case True
    with old show ?thesis
      by simp
  next
    case ne: False
    with False have a: "session_type (last (sessions st)) = Active"
      by (cases "session_type (last (sessions st))") simp_all
    from list_all2_snocD(3)[OF old ne] a have "last past \<noteq> []"
      "list_all (\<lambda>e. \<not> isIdle e) (last past)"
      by (simp_all add: members_of_def)
    then show ?thesis
      by (cases "last past") simp_all
  qed
  moreover from old have "length (sessions st) = length past"
    by (rule list_all2_lengthD)
  ultimately show ?thesis
    unfolding step using old m by (auto simp add: list_all2_append)
qed

lemma processEvent_grouped:
  assumes wf: "wf_state st" and g: "grouped st past cur"
    and run: "processEvent E st e = Some st1"
  shows "\<exists>past' cur'. grouped st1 past' cur'
     \<and> (\<forall>es. sessionEvents E (aiDecisionCache st) past cur (e # es)
            = sessionEvents E (aiDecisionCache st1) past' cur' es)"
proof -
  from g have old: "list_all2 members_of (sessions st) past"
    and cur: "cur = (case current st of None \<Rightarrow> [] | Some session \<Rightarrow> cur_events session)"
    and act: "list_all (\<lambda>e. \<not> isIdle e) cur"
    unfolding grouped_def by blast+
  from old have len: "length (sessions st) = length past"
    by (rule list_all2_lengthD)
  from run wf show ?thesis
  proof (cases rule: processEvent_cases)
    case (idle_open session s)
    let ?st1 = "st\<lparr>sessions := sessions st @ [s], current := None,
                uuid_calls := uuid_calls st + 1\<rparr>"
    from idle_open(2) cur wf have c: "cur = cur_events session" "cur \<noteq> []"
      by (simp_all add: wf_state_def)
    from finalizeSession_spans[OF idle_open(3)] c act have "members_of s cur"
      by (simp add: members_of_def)
    with old len have "list_all2 members_of (sessions ?st1) (past @ [cur])"
      by (simp add: list_all2_append)
    moreover have ni: "\<not> list_all isIdle cur"
      using c(2) act by (cases cur) simp_all
    ultimately have "list_all2 members_of (sessions (idleStep E ?st1 e)) (past @ [cur] @ [[e]])"
      using idleStep_grouped[of ?st1 "past @ [cur]" e E] idle_open(1) by simp
    with idle_open(4) have "grouped st1 (past @ [cur] @ [[e]]) []"
      by (simp add: grouped_def)
    moreover have "sessionEvents E (aiDecisionCache st) past cur (e # es)
        = sessionEvents E (aiDecisionCache st1) (past @ [cur] @ [[e]]) [] es" for es
      using idle_open(1,4) c ni by (simp add: idleStep_def)
    ultimately show ?thesis
      by blast
  next
    case idle_none
    let ?past = "if past \<noteq> [] \<and> list_all isIdle (last past)
            then butlast past @ [last past @ [e]] else past @ [[e]]"
    from idle_none(2) cur have c: "cur = []"
      by simp
    from idleStep_grouped[OF idle_none(2) old idle_none(1), of E] idle_none(2,3)
    have "grouped st1 ?past []"
      by (simp add: grouped_def)
    moreover have "sessionEvents E (aiDecisionCache st) past cur (e # es)
        = sessionEvents E (aiDecisionCache st1) ?past [] es" for es
      using idle_none(1,3) c by (simp add: idleStep_def)
    ultimately show ?thesis
      by blast
  next
    case start
    from start(2) cur have c: "cur = []"
      by simp
    from start old have "grouped st1 past [e]"
      by (simp add: grouped_def)
    moreover have "sessionEvents E (aiDecisionCache st) past cur (e # es)
        = sessionEvents E (aiDecisionCache st1) past [e] es" for es
      using start(1,3) c by simp
    ultimately show ?thesis
      by blast
  next
    case (merge session d c)
    from merge(2) cur have c: "cur = cur_events session"
      by simp
    from merge old act c have "grouped st1 past (cur @ [e])"
      by (simp add: grouped_def)
    moreover have "sessionEvents E (aiDecisionCache st) past cur (e # es)
        = sessionEvents E (aiDecisionCache st1) past (cur @ [e]) es" for es
      using merge c by simp
    ultimately show ?thesis
      by blast
  next
    case (split session d c s)
    from split(2) cur have c: "cur = cur_events session"
      by simp
    from finalizeSession_spans[OF split(6)] c act split(3) have "members_of s cur"
      by (simp add: members_of_def)
    with split old len have "grouped st1 (past @ [cur]) [e]"
      by (simp add: grouped_def list_all2_append)
    moreover have "sessionEvents E (aiDecisionCache st) past cur (e # es)
        = sessionEvents E (aiDecisionCache st1) (past @ [cur]) [e] es" for es
      using split c by auto
    ultimately show ?thesis
      by blast
  qed
qed

lemma processEvents_grouped:
  "wf_state st \<Longrightarrow> grouped st past cur \<Longrightarrow> processEvents E st es = Some st' \<Longrightarrow>
   list_all2 members_of (finalizeLast E st') (sessionEvents E (aiDecisionCache st) past cur es)"
proof (induction es arbitrary: st past cur)
  case Nil
  then have g: "grouped st' past cur" and wf: "wf_state st'"
    by simp_all
  then have old: "list_all2 members_of (sessions st') past"
    and act: "list_all (\<lambda>e. \<not> isIdle e) cur"
    unfolding grouped_def by blast+
  from old have len: "length (sessions st') = length past"
    by (rule list_all2_lengthD)
  show ?case
  proof (cases "current st'")
    case None
    with g old show ?thesis
      by (simp add: grouped_def finalizeLast_def)
  next
    case (Some session)
    with g wf have c: "cur = cur_events session" "cur \<noteq> []"
      by (simp_all add: grouped_def wf_state_def)
    then obtain s where fin: "finalizeSession E (uuid_calls st') session = Some s"
      using finalizeSession_None[of E "uuid_calls st'" session]
      by (cases "finalizeSession E (uuid_calls st') session") auto
    from finalizeSession_spans[OF fin] c act have "members_of s cur"
      by (simp add: members_of_def)
    with Some fin old len c show ?thesis
      by (simp add: finalizeLast_def list_all2_append)
  qed
next
  case (Cons e es)
  from Cons.prems(3) obtain st1 where
    st1: "processEvent E st e = Some st1" "processEvents E st1 es = Some st'"
    by (auto split: option.splits)
  from processEvent_grouped[OF Cons.prems(1,2) st1(1)] obtain past' cur' where
    g: "grouped st1 past' cur'"
    and eq: "sessionEvents E (aiDecisionCache st) past cur (e # es)
            = sessionEvents E (aiDecisionCache st1) past' cur' es"
    by blast
  from Cons.IH[OF processEvent_wf[OF st1(1) Cons.prems(1)] g st1(2)] eq show ?case
    by simp
qed

lemma concat_sessionEvents:
  "concat (sessionEvents E cache past cur es) = concat past @ cur @ es"
proof (induction es arbitrary: cache past cur)
  case Nil
  then show ?case
    by simp
next
  case (Cons e es)
  have bl: "concat (butlast p) @ last p = concat p" if "p \<noteq> []" for p :: "Event list list"
  proof -
    from that have "concat p = concat (butlast p @ [last p])"
      by simp
    then show ?thesis
      by (simp del: append_butlast_last_id)
  qed
  show ?case
    by (auto simp add: Cons.IH bl Let_def split: prod.splits)
qed

lemma sessions_of_members:
  "\<exists>ss c. aggregateToSessions E cache evs = Some (ss, c)
     \<and> list_all2 members_of ss (memberEvents E cache evs)"
proof (cases "evs = []")
  case True
  then show ?thesis
    by (simp add: aggregateToSessions_def memberEvents_def)
next
  case False
  obtain st where st: "processEvents E (initial_state cache) evs = Some st"
    using processEvents_total[OF wf_initial] by blast
  have "grouped (initial_state cache) [] []"
    by (simp add: grouped_def initial_state_def)
  from processEvents_grouped[OF wf_initial this st] st False show ?thesis
    by (simp add: aggregateToSessions_def memberEvents_def initial_state_def)
qed

text \<open>
  At every point of the loop the events of the accumulator are the last group of
  \<open>memberEvents\<close> for the events processed so far.
\<close>

lemma sessionEvents_accumulator:
  "wf_state st \<Longrightarrow> grouped st past cur \<Longrightarrow> processEvents E st es = Some st' \<Longrightarrow>
   \<exists>past'. sessionEvents E (aiDecisionCache st) past cur es
      = (case current st' of None \<Rightarrow> past' | Some session \<Rightarrow> past' @ [cur_events session])"
proof (induction es arbitrary: st past cur)
  case Nil
  then have cur: "cur = (case current st' of None \<Rightarrow> [] | Some session \<Rightarrow> cur_events session)"
    and wf: "wf_state st'"
    unfolding grouped_def by simp_all
  show ?case
  proof (cases "current st'")
    case None
    with cur show ?thesis
      by simp
  next
    case (Some session)
    with cur wf show ?thesis
      by (simp add: wf_state_def)
  qed
next
  case (Cons e es)
  from Cons.prems(3) obtain st1 where
    st1: "processEvent E st e = Some st1" "processEvents E st1 es = Some st'"
    by (auto split: option.splits)
  from processEvent_grouped[OF Cons.prems(1,2) st1(1)] obtain past' cur' where
    g: "grouped st1 past' cur'"
    and eq: "sessionEvents E (aiDecisionCache st) past cur (e # es)
            = sessionEvents E (aiDecisionCache st1) past' cur' es"
    by blast
  from Cons.IH[OF processEvent_wf[OF st1(1) Cons.prems(1)] g st1(2)] eq show ?case
    by simp
qed

lemma accumulator_is_last_group:
  assumes "processEvents E (initial_state cache) evs = Some st"
    and "current st = Some session"
  shows "memberEvents E cache evs \<noteq> [] \<and> last (memberEvents E cache evs) = cur_events session"
proof -
  have "grouped (initial_state cache) [] []"
    by (simp add: grouped_def initial_state_def)
  from sessionEvents_accumulator[OF wf_initial this assms(1)] assms(2) show ?thesis
    by (auto simp: memberEvents_def initial_state_def)
qed

text \<open>The idle groups of \<open>memberEvents\<close> are the maximal runs of idle events of the input.\<close>

lemma filter_idle_last:
  assumes "past \<noteq> []" and "list_all isIdle (last past)"
  shows "filter (list_all isIdle) past = filter (list_all isIdle) (butlast past) @ [last past]"
proof -
  from assms(1) have "filter (list_all isIdle) past
      = filter (list_all isIdle) (butlast past @ [last past])"
    by simp
  with assms(2) show ?thesis
    by (simp del: append_butlast_last_id)
qed

lemma not_idle_group:
  assumes "cur \<noteq> []" and "list_all (\<lambda>e. \<not> isIdle e) cur"
  shows "\<not> list_all isIdle cur"
  using assms by (cases cur) simp_all

lemma idle_groups_sessionEvents:
  "list_all (\<lambda>e. \<not> isIdle e) cur \<Longrightarrow>
   filter (list_all isIdle) (sessionEvents E cache past cur es)
     = (if cur = [] \<and> past \<noteq> [] \<and> list_all isIdle (last past)
        then filter (list_all isIdle) (butlast past)
             @ [last past @ takeWhile isIdle es] @ idle_runs (dropWhile isIdle es)
        else filter (list_all isIdle) past @ idle_runs es)"
proof (induction es arbitrary: cache past cur)
  case Nil
  then show ?case
    using filter_idle_last[of past] not_idle_group[of cur] by auto
next
  case (Cons e es)
  note act = Cons.prems
  show ?case
  proof (cases "isIdle e")
    case idle: True
    show ?thesis
    proof (cases "cur = []")
      case True
      show ?thesis
      proof (cases "past \<noteq> [] \<and> list_all isIdle (last past)")
        case ext: True
        with idle True
          Cons.IH[where cur = "[]" and cache = cache and past = "butlast past @ [last past @ [e]]"]
        show ?thesis
          by simp
      next
        case False
        with idle True Cons.IH[where cur = "[]" and cache = cache and past = "past @ [[e]]"]
        show ?thesis
          by (auto simp: butlast_append)
      qed
    next
      case False
      with idle act not_idle_group[of cur]
        Cons.IH[where cur = "[]" and cache = cache and past = "(past @ [cur]) @ [[e]]"]
      show ?thesis
        by (simp add: butlast_append)
    qed
  next
    case active: False
    show ?thesis
    proof (cases "cur = []")
      case True
      with active Cons.IH[where cur = "[e]" and cache = cache and past = past] filter_idle_last[of past] show ?thesis
        by auto
    next
      case False
      obtain d c where dc: "shouldMergeEvents E cache (last cur) e = (d, c)"
        by (cases "shouldMergeEvents E cache (last cur) e") auto
      show ?thesis
      proof (cases "shouldMerge d \<and> 7 / 10 \<le> confidence d")
        case True
        with active False dc act Cons.IH[where cur = "cur @ [e]" and cache = c and past = past] show ?thesis
          by simp
      next
        case no: False
        with active False dc act not_idle_group[of cur] Cons.IH[where cur = "[e]" and cache = c and past = "past @ [cur]"]
        show ?thesis
          by auto
      qed
    qed
  qed
qed

lemma idle_groups_are_runs:
  "filter (list_all isIdle) (memberEvents E cache evs) = idle_runs evs"
  using idle_groups_sessionEvents[of "[]" E cache "[]" evs] by (simp add: memberEvents_def)

section \<open>Categories of the sessions\<close>










lemma run_active_then_idle:
  "map_option fst (aggregateToSessions bare_env Map.empty
       [event_at 0 ''Notes'' False, event_at 5000 ''Notes'' True])
   = Some [\<lparr>session_id = ''0'', session_start = 0, session_end = 5000, session_duration = 5,
             session_type = Active, category = Some ''other'', apps = Some [''Notes''],
             contexts = Some [''main''], contextSwitches = Some 0, precedingCategory = None\<rparr>,
           \<lparr>session_id = ''1'', session_start = 5000, session_end = 10000,
             session_duration = 5, session_type = Idle, category = None, apps = None,
             contexts = None, contextSwitches = None, precedingCategory = Some ''other''\<rparr>]"
  by code_simp


section \<open>The generic fallback of context extraction\<close>

lemma is_space_lower_char [simp]: "is_space (lower_char c) = is_space c"
proof (cases c)
  case (Char b0 b1 b2 b3 b4 b5 b6 b7)
  then show ?thesis
    by (cases b0; cases b1; cases b2; cases b3; cases b4; cases b5; cases b6; cases b7)
      (simp_all add: is_space_def Let_def)
qed

lemma dropWhile_space_lower:
  "dropWhile is_space (map lower_char s) = map lower_char (dropWhile is_space s)"
  by (induction s) simp_all

lemma trim_toLowerCase: "trim (toLowerCase s) = toLowerCase (trim s)"
  by (simp add: trim_def toLowerCase_def dropWhile_space_lower rev_map)

lemma first_extracted_no_match:
  "\<forall>p \<in> set ps. \<not> test_words_i (fst p) app \<Longrightarrow> first_extracted ps app title = None"
  by (induction ps) auto

lemma fst_patterns: "p \<in> set (patterns names ex) \<Longrightarrow> fst p \<in> set names"
  by (auto simp: patterns_def)

lemma extractContext_fallback:
  assumes "matchesNoFamily app"
    and "trim (toLowerCase title) \<notin> set genericTitles"
    and "length title < 100"
  shows "extractContext x app title u None
     = Some \<lparr>ctx_type = Other, ctx_value = take 80 title, ctx_details = None\<rparr>"
proof -
  from assms(2) have "trim (toLowerCase title) \<noteq> []"
    by (auto simp: genericTitles_def)
  then have "trim title \<noteq> []"
    using trim_toLowerCase[of title] by (auto simp: toLowerCase_def)
  then have t: "trim title \<noteq> []" "title \<noteq> []"
    by (auto simp: trim_def)
  from assms(1) have
    nm: "\<And>names. names \<in> set (IDE_appNames @ TERMINAL_appNames @ DESIGN_appNames
            @ COMMUNICATION_appNames) \<Longrightarrow> \<not> test_words_i names app"
    and nb: "\<not> test_words_i BROWSER_appNames app"
    by (auto simp: matchesNoFamily_def list_ex_iff)
  have none: "first_extracted (patterns IDE_appNames ex) app title = None"
    "first_extracted (patterns TERMINAL_appNames ex) app title = None"
    "first_extracted (patterns DESIGN_appNames ex) app title = None"
    "first_extracted (patterns COMMUNICATION_appNames ex) app title = None" for ex
    using nm by (auto intro!: first_extracted_no_match dest!: fst_patterns)
  show ?thesis
    using t nb assms(2,3) by (simp add: extractContext_def none truthy_def Let_def)
qed

text \<open>
  C9, as stated, fails. For the application \<open>Notes\<close>, which belongs to no family, and a
  title of ninety letters \<open>x\<close> (not empty, not a generic title, under 100 characters) and
  no document path, the value returned is not the title: it is cut to 80 characters.
\<close>

theorem generic_fallback_verbatim_counterexample:
  "matchesNoFamily ''Notes'' \<and> long_title \<noteq> []
   \<and> trim (toLowerCase long_title) \<notin> set genericTitles \<and> length long_title < 100
   \<and> extractContext no_extractors ''Notes'' long_title None None
       \<noteq> Some \<lparr>ctx_type = Other, ctx_value = long_title, ctx_details = None\<rparr>
   \<and> extractContext no_extractors ''Notes'' long_title None None
       = Some \<lparr>ctx_type = Other, ctx_value = replicate 80 (CHR ''x''), ctx_details = None\<rparr>"
  by code_simp

text \<open>
  C9, amended. With no document path, an application name that matches no IDE, terminal,
  design, communication or browser family, and a window title that is not empty, not in
  the generic-title blocklist (after lower-casing and trimming) and under 100 characters,
  \<open>extractContext\<close> returns kind \<open>other\<close> whose value is the first 80 characters of the
  title: the title itself when it has at most 80 characters.
\<close>

theorem generic_fallback_first_80:
  assumes "matchesNoFamily app" and "title \<noteq> []"
    and "trim (toLowerCase title) \<notin> set genericTitles" and "length title < 100"
  shows "extractContext x app title u None
           = Some \<lparr>ctx_type = Other, ctx_value = take 80 title, ctx_details = None\<rparr>
         \<and> (length title \<le> 80 \<longrightarrow>
              extractContext x app title u None
                = Some \<lparr>ctx_type = Other, ctx_value = title, ctx_details = None\<rparr>)"
  using extractContext_fallback[OF assms(1,3,4)] by simp

theorem generic_fallback_first_80_witness:
  "matchesNoFamily ''Notes'' \<and> ''Shopping list'' \<noteq> []
   \<and> trim (toLowerCase ''Shopping list'') \<notin> set genericTitles
   \<and> length ''Shopping list'' < 100 \<and> length ''Shopping list'' \<le> 80
   \<and> extractContext no_extractors ''Notes'' ''Shopping list'' None None
       = Some \<lparr>ctx_type = Other, ctx_value = ''Shopping list'', ctx_details = None\<rparr>"
proof -
  have h1: "matchesNoFamily ''Notes''"
    by code_simp
  have h2: "''Shopping list'' \<noteq> []"
    by simp
  have h3: "trim (toLowerCase ''Shopping list'') \<notin> set genericTitles"
    by code_simp
  have h4: "length ''Shopping list'' < 100"
    by simp
  from generic_fallback_first_80[OF h1 h2 h3 h4, of no_extractors None] h1 h3 show ?thesis
    by simp
qed

section \<open>Boundary decisions\<close>

text \<open>
  C6. When the gap is at most \<open>MAX_SESSION_GAP\<close> seconds, the previous event is not an
  idle event longer than \<open>IDLE_THRESHOLD\<close>, the applications differ and are in no common
  related group, one of the two events resolves to no category, the decision cache has
  no entry under the key of the pair and no AI model is available, \<open>shouldMergeEvents\<close>
  returns the decision not to merge, with confidence one half and the reason of the
  conservative split, and leaves the cache as it was.
\<close>

theorem conservative_split_without_ai:
  assumes "timestamp currEv - timestamp prevEv \<le> MAX_SESSION_GAP * 1000"
    and "\<not> (isIdle prevEv \<and> duration_or_5 prevEv > IDLE_THRESHOLD)"
    and "appName prevEv \<noteq> appName currEv"
    and "\<not> areAppsRelated (appName prevEv) (appName currEv)"
    and "getCategoryForEvent E prevEv = None \<or> getCategoryForEvent E currEv = None"
    and "cache (buildCacheKey E prevEv currEv) = None"
    and "\<not> isModelAvailable E"
  shows "shouldMergeEvents E cache prevEv currEv
     = (\<lparr>shouldMerge = False, confidence = 5 / 10,
         reason = ''Uncategorized - conservative split'', suggestedCategory = None\<rparr>, cache)"
proof -
  from assms(5) have "\<not> (truthy_opt (getCategoryForEvent E prevEv)
      \<and> truthy_opt (getCategoryForEvent E currEv))"
    by (auto simp: truthy_opt_def)
  with assms(6,7) have "decideByCategory E cache prevEv currEv = (conservative_split, cache)"
    by (auto simp: decideByCategory_def Let_def)
  with assms(1-4) show ?thesis
    by (simp add: shouldMergeEvents_def Let_def conservative_split_def)
qed

theorem conservative_split_without_ai_witness:
  "timestamp (event_at 2000 ''Spotify'' False) - timestamp (event_at 0 ''Notes'' False)
     \<le> MAX_SESSION_GAP * 1000
   \<and> \<not> (isIdle (event_at 0 ''Notes'' False)
        \<and> duration_or_5 (event_at 0 ''Notes'' False) > IDLE_THRESHOLD)
   \<and> appName (event_at 0 ''Notes'' False) \<noteq> appName (event_at 2000 ''Spotify'' False)
   \<and> \<not> areAppsRelated ''Notes'' ''Spotify''
   \<and> getCategoryForEvent bare_env (event_at 0 ''Notes'' False) = None
   \<and> \<not> isModelAvailable bare_env
   \<and> shouldMergeEvents bare_env Map.empty (event_at 0 ''Notes'' False)
        (event_at 2000 ''Spotify'' False)
     = (\<lparr>shouldMerge = False, confidence = 5 / 10,
         reason = ''Uncategorized - conservative split'', suggestedCategory = None\<rparr>,
        Map.empty)"
proof -
  have h1: "timestamp (event_at 2000 ''Spotify'' False) - timestamp (event_at 0 ''Notes'' False)
     \<le> MAX_SESSION_GAP * 1000"
    by (simp add: event_at_def MAX_SESSION_GAP_def)
  have h2: "\<not> (isIdle (event_at 0 ''Notes'' False)
        \<and> duration_or_5 (event_at 0 ''Notes'' False) > IDLE_THRESHOLD)"
    by (simp add: event_at_def)
  have h3: "appName (event_at 0 ''Notes'' False) \<noteq> appName (event_at 2000 ''Spotify'' False)"
    by (simp add: event_at_def)
  have unrelated: "\<not> areAppsRelated ''Notes'' ''Spotify''"
    by code_simp
  then have h4: "\<not> areAppsRelated (appName (event_at 0 ''Notes'' False))
      (appName (event_at 2000 ''Spotify'' False))"
    by (simp add: event_at_def)
  have none: "getCategoryForEvent bare_env (event_at 0 ''Notes'' False) = None"
    by (simp add: getCategoryForEvent_def bare_env_def)
  then have h5: "getCategoryForEvent bare_env (event_at 0 ''Notes'' False) = None
      \<or> getCategoryForEvent bare_env (event_at 2000 ''Spotify'' False) = None"
    by simp
  have h6: "Map.empty (buildCacheKey bare_env (event_at 0 ''Notes'' False)
      (event_at 2000 ''Spotify'' False)) = None"
    by simp
  have h7: "\<not> isModelAvailable bare_env"
    by (simp add: bare_env_def)
  from conservative_split_without_ai[OF h1 h2 h3 h4 h5 h6 h7] h1 h2 h3 unrelated none h7
  show ?thesis
    by simp
qed

lemma cursor_ghostty_unrelated: "\<not> areAppsRelated ''Cursor'' ''Ghostty''"
  by code_simp

text \<open>
  C7. The code does not do what the claim says. The comment above \<open>RELATED_APP_GROUPS\<close>
  announces one development cluster, "IDE + Terminal + API testing", which is the cluster
  of the claim, but the table holds the IDEs, the terminals and the API clients as three
  entries, and \<open>areAppsRelated\<close> asks for one entry that has both applications. So Cursor
  and Ghostty are not related, although Cursor and Xcode are: without a category lookup
  Cursor followed by Xcode merges as a related application group, and Cursor followed by
  Ghostty is split.
\<close>

lemma ide_and_terminal_entries:
  "areAppsRelated ''Cursor'' ''Xcode'' \<and> \<not> areAppsRelated ''Cursor'' ''Ghostty''
   \<and> fst (shouldMergeEvents bare_env Map.empty (event_at 0 ''Cursor'' False)
          (event_at 2000 ''Xcode'' False))
     = \<lparr>shouldMerge = True, confidence = 75 / 100, reason = ''Related application group'',
        suggestedCategory = None\<rparr>
   \<and> fst (shouldMergeEvents bare_env Map.empty (event_at 0 ''Cursor'' False)
          (event_at 2000 ''Ghostty'' False))
     = conservative_split"
  by code_simp

text \<open>
  With a lookup that maps both applications to development, the decision for Cursor
  followed two seconds later by Ghostty is a merge, but with confidence 0.85 and the
  reason of the category comparison, not with confidence 0.9 and the reason of the
  related-application rule.
\<close>

theorem cursor_then_ghostty_counterexample:
  "lookup_apps dev_lookup ''Cursor'' = Some ''development''
   \<and> lookup_apps dev_lookup ''Ghostty'' = Some ''development''
   \<and> fst (shouldMergeEvents dev_env Map.empty (event_at 0 ''Cursor'' False)
          (event_at 2000 ''Ghostty'' False))
     = \<lparr>shouldMerge = True, confidence = 85 / 100,
        reason = ''Same category (development)'', suggestedCategory = None\<rparr>
   \<and> confidence (fst (shouldMergeEvents dev_env Map.empty (event_at 0 ''Cursor'' False)
          (event_at 2000 ''Ghostty'' False))) \<noteq> 9 / 10
   \<and> reason (fst (shouldMergeEvents dev_env Map.empty (event_at 0 ''Cursor'' False)
          (event_at 2000 ''Ghostty'' False))) \<noteq> ''Related apps in same category (development)''"
  by code_simp

text \<open>
  C7, what the code does. For adjacent non-idle events of the applications Cursor and then
  Ghostty, 2 seconds apart, that both resolve to the category development,
  \<open>shouldMergeEvents\<close> returns a merge decision with confidence 0.85 and the reason
  \<open>Same category (development)\<close>, and leaves the cache as it is.
\<close>

theorem cursor_then_ghostty:
  assumes "appName prevEv = ''Cursor''" and "appName currEv = ''Ghostty''"
    and "timestamp currEv - timestamp prevEv = 2000"
    and "\<not> isIdle prevEv" and "\<not> isIdle currEv"
    and "getCategoryForEvent E prevEv = Some ''development''"
    and "getCategoryForEvent E currEv = Some ''development''"
  shows "shouldMergeEvents E cache prevEv currEv
     = (\<lparr>shouldMerge = True, confidence = 85 / 100,
         reason = ''Same category (development)'', suggestedCategory = None\<rparr>, cache)"
proof -
  from assms(6,7) have "decideByCategory E cache prevEv currEv
     = (\<lparr>shouldMerge = True, confidence = 85 / 100,
         reason = ''Same category (development)'', suggestedCategory = None\<rparr>, cache)"
    by (simp add: decideByCategory_def Let_def truthy_opt_def truthy_def)
  with assms(1-4) cursor_ghostty_unrelated show ?thesis
    by (simp add: shouldMergeEvents_def Let_def MAX_SESSION_GAP_def)
qed

theorem cursor_then_ghostty_witness:
  "appName (event_at 0 ''Cursor'' False) = ''Cursor''
   \<and> appName (event_at 2000 ''Ghostty'' False) = ''Ghostty''
   \<and> timestamp (event_at 2000 ''Ghostty'' False) - timestamp (event_at 0 ''Cursor'' False) = 2000
   \<and> \<not> isIdle (event_at 0 ''Cursor'' False) \<and> \<not> isIdle (event_at 2000 ''Ghostty'' False)
   \<and> getCategoryForEvent dev_env (event_at 0 ''Cursor'' False) = Some ''development''
   \<and> getCategoryForEvent dev_env (event_at 2000 ''Ghostty'' False) = Some ''development''
   \<and> shouldMergeEvents dev_env Map.empty (event_at 0 ''Cursor'' False)
        (event_at 2000 ''Ghostty'' False)
     = (\<lparr>shouldMerge = True, confidence = 85 / 100,
         reason = ''Same category (development)'', suggestedCategory = None\<rparr>, Map.empty)"
proof -
  have h1: "appName (event_at 0 ''Cursor'' False) = ''Cursor''"
    and h2: "appName (event_at 2000 ''Ghostty'' False) = ''Ghostty''"
    and h3: "timestamp (event_at 2000 ''Ghostty'' False)
        - timestamp (event_at 0 ''Cursor'' False) = 2000"
    and h4: "\<not> isIdle (event_at 0 ''Cursor'' False)"
    and h5: "\<not> isIdle (event_at 2000 ''Ghostty'' False)"
    by (simp_all add: event_at_def)
  have h6: "getCategoryForEvent dev_env (event_at 0 ''Cursor'' False) = Some ''development''"
    by code_simp
  have h7: "getCategoryForEvent dev_env (event_at 2000 ''Ghostty'' False) = Some ''development''"
    by code_simp
  from cursor_then_ghostty[OF h1 h2 h3 h4 h5 h6 h7] h1 h2 h3 h4 h5 h6 h7 show ?thesis
    by simp
qed

section \<open>The merge threshold\<close>

text \<open>
  C5. In the loop, with an open session and an active event, let \<open>d\<close> be the decision of
  \<open>shouldMergeEvents\<close> for the last member event and the event. If \<open>d\<close> recommends the
  merge with confidence at least 0.7, the event is appended to the open session and no
  session is closed; otherwise the open session is closed and a new one is opened that
  holds the event alone. So the event is merged if and only if \<open>shouldMerge\<close> holds and the
  confidence is at least 0.7. The instance that follows the theorem runs the step with a
  cached merge decision of confidence 0.7, which merges, and of 0.69999, which does not.
\<close>

theorem merge_iff_threshold:
  assumes "current st = Some session" and "cur_events session \<noteq> []" and "\<not> isIdle event"
    and "shouldMergeEvents E (aiDecisionCache st) (last (cur_events session)) event = (d, c)"
  shows "\<exists>st' session'. processEvent E st event = Some st' \<and> current st' = Some session'
     \<and> (shouldMerge d \<and> 7 / 10 \<le> confidence d \<longrightarrow>
           sessions st' = sessions st \<and> cur_events session' = cur_events session @ [event])
     \<and> (\<not> (shouldMerge d \<and> 7 / 10 \<le> confidence d) \<longrightarrow>
           length (sessions st') = length (sessions st) + 1 \<and> cur_events session' = [event])"
proof -
  obtain s where fin: "finalizeSession E (uuid_calls st) session = Some s"
    using assms(2) finalizeSession_None[of E "uuid_calls st" session]
    by (cases "finalizeSession E (uuid_calls st) session") auto
  show ?thesis
    using assms fin by (simp add: processEvent_def)
qed

theorem merge_iff_threshold_witness:
  "(\<exists>st' session'.
      processEvent bare_env (after_first bare_env (cached_decision (7 / 10))
          (event_at 0 ''Notes'' False)) (event_at 2000 ''Spotify'' False) = Some st'
      \<and> current st' = Some session' \<and> sessions st' = []
      \<and> cur_events session' = [event_at 0 ''Notes'' False, event_at 2000 ''Spotify'' False])
   \<and> (\<exists>st' session'.
      processEvent bare_env (after_first bare_env (cached_decision (69999 / 100000))
          (event_at 0 ''Notes'' False)) (event_at 2000 ''Spotify'' False) = Some st'
      \<and> current st' = Some session' \<and> length (sessions st') = 1
      \<and> cur_events session' = [event_at 2000 ''Spotify'' False])"
proof -
  let ?e1 = "event_at 0 ''Notes'' False" and ?e2 = "event_at 2000 ''Spotify'' False"
  let ?st = "\<lambda>conf. after_first bare_env (cached_decision conf) ?e1"
  let ?X = "\<lambda>conf. shouldMergeEvents bare_env (aiDecisionCache (?st conf))
      (last (cur_events (startSession bare_env ?e1))) ?e2"
  have h1: "current (?st conf) = Some (startSession bare_env ?e1)" for conf
    by (simp add: after_first_def)
  have h2: "cur_events (startSession bare_env ?e1) \<noteq> []"
    by simp
  have h3: "\<not> isIdle ?e2"
    by (simp add: event_at_def)
  have h4: "?X conf = (fst (?X conf), snd (?X conf))" for conf
    by simp
  have yes: "shouldMerge (fst (?X (7 / 10))) \<and> 7 / 10 \<le> confidence (fst (?X (7 / 10)))"
    by code_simp
  have no: "\<not> (shouldMerge (fst (?X (69999 / 100000)))
      \<and> 7 / 10 \<le> confidence (fst (?X (69999 / 100000))))"
    by code_simp
  have s0: "sessions (?st conf) = []" for conf
    by (simp add: after_first_def initial_state_def)
  from merge_iff_threshold[OF h1 h2 h3 h4, of "7 / 10"]
  obtain st1 session1 where
    r1: "processEvent bare_env (?st (7 / 10)) ?e2 = Some st1" "current st1 = Some session1"
    and m1: "shouldMerge (fst (?X (7 / 10))) \<and> 7 / 10 \<le> confidence (fst (?X (7 / 10)))
      \<longrightarrow> sessions st1 = sessions (?st (7 / 10))
        \<and> cur_events session1 = cur_events (startSession bare_env ?e1) @ [?e2]"
    by blast
  from m1 yes have "sessions st1 = [] \<and> cur_events session1 = [?e1, ?e2]"
    by (simp add: s0)
  with r1 have A: "\<exists>st' session'. processEvent bare_env (?st (7 / 10)) ?e2 = Some st'
      \<and> current st' = Some session' \<and> sessions st' = []
      \<and> cur_events session' = [?e1, ?e2]"
    by blast
  from merge_iff_threshold[OF h1 h2 h3 h4, of "69999 / 100000"]
  obtain st2 session2 where
    r2: "processEvent bare_env (?st (69999 / 100000)) ?e2 = Some st2"
      "current st2 = Some session2"
    and m2: "\<not> (shouldMerge (fst (?X (69999 / 100000)))
        \<and> 7 / 10 \<le> confidence (fst (?X (69999 / 100000))))
      \<longrightarrow> length (sessions st2) = length (sessions (?st (69999 / 100000))) + 1
        \<and> cur_events session2 = [?e2]"
    by blast
  from m2 no have "length (sessions st2) = 1 \<and> cur_events session2 = [?e2]"
    by (simp add: s0)
  with r2 have B: "\<exists>st' session'. processEvent bare_env (?st (69999 / 100000)) ?e2 = Some st'
      \<and> current st' = Some session' \<and> length (sessions st') = 1
      \<and> cur_events session' = [?e2]"
    by blast
  from A B show ?thesis
    by blast
qed

section \<open>Two runs on the same input\<close>

lemma env_uuid:
  "url_hostname (E\<lparr>randomUUID := u\<rparr>) = url_hostname E"
  "regexp_test_i (E\<lparr>randomUUID := u\<rparr>) = regexp_test_i E"
  "categoryLookup (E\<lparr>randomUUID := u\<rparr>) = categoryLookup E"
  "isModelAvailable (E\<lparr>randomUUID := u\<rparr>) = isModelAvailable E"
  "callHaiku (E\<lparr>randomUUID := u\<rparr>) = callHaiku E"
  "createOrUpdateSuggestion (E\<lparr>randomUUID := u\<rparr>) = createOrUpdateSuggestion E"
  "title_extractors (E\<lparr>randomUUID := u\<rparr>) = title_extractors E"
  by simp_all

lemma extractDomain_uuid: "extractDomain (E\<lparr>randomUUID := u\<rparr>) = extractDomain E"
  by (rule ext) (unfold extractDomain_def env_uuid, (rule refl)?)

lemma areUrlsRelated_uuid: "areUrlsRelated (E\<lparr>randomUUID := u\<rparr>) = areUrlsRelated E"
  by (intro ext) (unfold areUrlsRelated_def extractDomain_uuid, (rule refl)?)

lemma matchesDomainPattern_uuid:
  "matchesDomainPattern (E\<lparr>randomUUID := u\<rparr>) = matchesDomainPattern E"
  by (intro ext) (unfold matchesDomainPattern_def env_uuid, (rule refl)?)

lemma firstPattern_uuid:
  "firstPattern (E\<lparr>randomUUID := u\<rparr>) d ps = firstPattern E d ps"
  by (induction ps) (auto simp: matchesDomainPattern_uuid)

lemma getCategoryForEvent_uuid:
  "getCategoryForEvent (E\<lparr>randomUUID := u\<rparr>) = getCategoryForEvent E"
  by (rule ext) (unfold getCategoryForEvent_def extractDomain_uuid firstPattern_uuid env_uuid, (rule refl)?)

lemma getUncategorizedValue_uuid:
  "getUncategorizedValue (E\<lparr>randomUUID := u\<rparr>) = getUncategorizedValue E"
  by (rule ext) (unfold getUncategorizedValue_def extractDomain_uuid, (rule refl)?)

lemma buildCacheKey_uuid: "buildCacheKey (E\<lparr>randomUUID := u\<rparr>) = buildCacheKey E"
  by (intro ext) (unfold buildCacheKey_def eventKey_def extractDomain_uuid, (rule refl)?)

lemma describeEvent_uuid: "describeEvent (E\<lparr>randomUUID := u\<rparr>) = describeEvent E"
  by (rule ext) (unfold describeEvent_def extractDomain_uuid, (rule refl)?)

lemma askAIForBoundary_uuid:
  "askAIForBoundary (E\<lparr>randomUUID := u\<rparr>) = askAIForBoundary E"
  by (intro ext) (unfold askAIForBoundary_def describeEvent_uuid env_uuid, (rule refl)?)

lemma decideByCategory_uuid:
  "decideByCategory (E\<lparr>randomUUID := u\<rparr>) = decideByCategory E"
  by (intro ext)
    (unfold decideByCategory_def getCategoryForEvent_uuid getUncategorizedValue_uuid
      buildCacheKey_uuid askAIForBoundary_uuid env_uuid, (rule refl)?)

lemma shouldMergeEvents_uuid:
  "shouldMergeEvents (E\<lparr>randomUUID := u\<rparr>) = shouldMergeEvents E"
  by (intro ext)
    (unfold shouldMergeEvents_def extractDomain_uuid areUrlsRelated_uuid
      getCategoryForEvent_uuid decideByCategory_uuid, (rule refl)?)

lemma eventContext_uuid: "eventContext (E\<lparr>randomUUID := u\<rparr>) = eventContext E"
  by (rule ext) (unfold eventContext_def env_uuid, (rule refl)?)

lemma startSession_uuid: "startSession (E\<lparr>randomUUID := u\<rparr>) = startSession E"
  by (rule ext) (unfold startSession_def eventContext_uuid getCategoryForEvent_uuid, (rule refl)?)

lemma mergeEvent_uuid: "mergeEvent (E\<lparr>randomUUID := u\<rparr>) = mergeEvent E"
  by (intro ext)
    (unfold mergeEvent_def eventContext_uuid getCategoryForEvent_uuid extractDomain_uuid, (rule refl)?)

lemma erase_id_fields [simp]:
  "session_type (erase_id s) = session_type s" "category (erase_id s) = category s"
  "session_duration (erase_id s) = session_duration s"
  by (simp_all add: erase_id_def)

lemma erase_id_update [simp]:
  "erase_id (s\<lparr>session_end := t, session_duration := d\<rparr>)
     = (erase_id s)\<lparr>session_end := t, session_duration := d\<rparr>"
  by (simp add: erase_id_def)

lemma erase_id_eqD:
  assumes "erase_id a = erase_id b"
  shows "session_type a = session_type b" "category a = category b"
    "session_duration a = session_duration b"
  using assms erase_id_fields by metis+

lemma finalizeSession_erase:
  "map_option erase_id (finalizeSession (E\<lparr>randomUUID := ua\<rparr>) na session)
     = map_option erase_id (finalizeSession (E\<lparr>randomUUID := ub\<rparr>) nb session)"
  by (cases "cur_events session") (simp_all add: finalizeSession_def Let_def erase_id_def)

lemma idleSession_erase:
  "erase_id (idleSession (E\<lparr>randomUUID := u1\<rparr>) n1 e p)
     = erase_id (idleSession (E\<lparr>randomUUID := u2\<rparr>) n2 e p)"
  by (simp add: idleSession_def erase_id_def)

lemma idleStep_same_but_ids:
  assumes "same_but_ids a b"
  shows "same_but_ids (idleStep (E\<lparr>randomUUID := ua\<rparr>) a e)
           (idleStep (E\<lparr>randomUUID := ub\<rparr>) b e)"
proof -
  from assms have m: "map erase_id (sessions a) = map erase_id (sessions b)"
    and c: "current a = current b" and k: "aiDecisionCache a = aiDecisionCache b"
    by (simp_all add: same_but_ids_def)
  from m have emp: "sessions a = [] \<longleftrightarrow> sessions b = []"
    by (metis map_is_Nil_conv)
  show ?thesis
  proof (cases "sessions a = []")
    case True
    with emp m c k show ?thesis
      by (simp add: same_but_ids_def idleStep_def idleSession_erase)
  next
    case False
    with emp have nb: "sessions b \<noteq> []" by simp
    from m False nb have l: "erase_id (last (sessions a)) = erase_id (last (sessions b))"
      by (metis last_map)
    from m have bl: "map erase_id (butlast (sessions a)) = map erase_id (butlast (sessions b))"
      by (simp add: map_butlast)
    show ?thesis
      using False nb m c k l bl erase_id_eqD[OF l]
      by (simp add: same_but_ids_def idleStep_def idleSession_erase)
  qed
qed


lemma processEvent_same_but_ids:
  assumes R: "same_but_ids a b" and wf: "wf_state a"
    and run: "processEvent (E\<lparr>randomUUID := u1\<rparr>) a e = Some a'"
  shows "\<exists>b'. processEvent (E\<lparr>randomUUID := u2\<rparr>) b e = Some b' \<and> same_but_ids a' b'"
proof -
  from R have m: "map erase_id (sessions a) = map erase_id (sessions b)"
    and c: "current a = current b" and k: "aiDecisionCache a = aiDecisionCache b"
    by (simp_all add: same_but_ids_def)
  from run wf show ?thesis
  proof (cases rule: processEvent_cases)
    case (idle_open session s)
    from idle_open(3) finalizeSession_erase[where E = E and ua = u1 and na = "uuid_calls a" and session = session
        and ub = u2 and nb = "uuid_calls b"]
    obtain s2 where s2: "finalizeSession (E\<lparr>randomUUID := u2\<rparr>) (uuid_calls b) session = Some s2"
      and es: "erase_id s = erase_id s2"
      by (cases "finalizeSession (E\<lparr>randomUUID := u2\<rparr>) (uuid_calls b) session") auto
    have "same_but_ids (a\<lparr>sessions := sessions a @ [s], current := None,
                uuid_calls := uuid_calls a + 1\<rparr>)
            (b\<lparr>sessions := sessions b @ [s2], current := None,
                uuid_calls := uuid_calls b + 1\<rparr>)"
      using m k es by (simp add: same_but_ids_def)
    moreover have "current b = Some session"
      using c idle_open(2) by simp
    ultimately show ?thesis
      using idleStep_same_but_ids[where E = E and ua = u1 and e = e and ub = u2] idle_open(1,4) s2
      by (simp add: processEvent_def)
  next
    case idle_none
    moreover have "current b = None"
      using c idle_none(2) by simp
    ultimately show ?thesis
      using idleStep_same_but_ids[OF R, where E = E and ua = u1 and e = e and ub = u2]
      by (simp add: processEvent_def)
  next
    case start
    moreover have "current b = None"
      using c start(2) by simp
    ultimately show ?thesis
      using m k by (simp add: processEvent_def same_but_ids_def startSession_uuid)
  next
    case (merge session d c')
    moreover have "current b = Some session"
      using c merge(2) by simp
    ultimately show ?thesis
      using m k
      by (simp add: processEvent_def same_but_ids_def shouldMergeEvents_uuid mergeEvent_uuid)
  next
    case (split session d c' s)
    from split(6) finalizeSession_erase[where E = E and ua = u1 and na = "uuid_calls a" and session = session
        and ub = u2 and nb = "uuid_calls b"]
    obtain s2 where s2: "finalizeSession (E\<lparr>randomUUID := u2\<rparr>) (uuid_calls b) session = Some s2"
      and es: "erase_id s = erase_id s2"
      by (cases "finalizeSession (E\<lparr>randomUUID := u2\<rparr>) (uuid_calls b) session") auto
    have "current b = Some session"
      using c split(2) by simp
    with split(1,3-5,7) m k s2 es show ?thesis
      by (auto simp add: processEvent_def same_but_ids_def shouldMergeEvents_uuid
          startSession_uuid)
  qed
qed

lemma same_but_ids_wf: "same_but_ids a b \<Longrightarrow> wf_state a \<Longrightarrow> wf_state b"
  by (simp add: same_but_ids_def wf_state_def)

lemma processEvents_same_but_ids:
  "same_but_ids a b \<Longrightarrow> wf_state a \<Longrightarrow>
   processEvents (E\<lparr>randomUUID := u1\<rparr>) a es = Some a' \<Longrightarrow>
   \<exists>b'. processEvents (E\<lparr>randomUUID := u2\<rparr>) b es = Some b' \<and> same_but_ids a' b'"
proof (induction es arbitrary: a b)
  case Nil
  then show ?case
    by simp
next
  case (Cons e es)
  from Cons.prems(3) obtain a1 where
    a1: "processEvent (E\<lparr>randomUUID := u1\<rparr>) a e = Some a1"
      "processEvents (E\<lparr>randomUUID := u1\<rparr>) a1 es = Some a'"
    by (auto split: option.splits)
  from processEvent_same_but_ids[OF Cons.prems(1,2) a1(1), where ?u2.0 = u2]
  obtain b1 where b1: "processEvent (E\<lparr>randomUUID := u2\<rparr>) b e = Some b1"
    "same_but_ids a1 b1"
    by blast
  from Cons.IH[OF b1(2) processEvent_wf[OF a1(1) Cons.prems(2)] a1(2)] b1(1)
  show ?case
    by simp
qed

lemma finalizeLast_same_but_ids:
  assumes "same_but_ids a b"
  shows "map erase_id (finalizeLast (E\<lparr>randomUUID := ua\<rparr>) a)
     = map erase_id (finalizeLast (E\<lparr>randomUUID := ub\<rparr>) b)"
proof (cases "current a")
  case None
  with assms show ?thesis
    by (simp add: finalizeLast_def same_but_ids_def)
next
  case (Some session)
  with assms finalizeSession_erase[where E = E and ua = ua and na = "uuid_calls a"
      and session = session and ub = ub and nb = "uuid_calls b"]
  show ?thesis
    by (auto simp: finalizeLast_def same_but_ids_def split: option.splits)
qed

lemma runs_equal_up_to_ids:
  "\<exists>ss1 ss2 c. aggregateToSessions (E\<lparr>randomUUID := u1\<rparr>) cache evs = Some (ss1, c)
     \<and> aggregateToSessions (E\<lparr>randomUUID := u2\<rparr>) cache evs = Some (ss2, c)
     \<and> map erase_id ss1 = map erase_id ss2"
proof (cases "evs = []")
  case True
  then show ?thesis
    by (simp add: aggregateToSessions_def)
next
  case False
  obtain a where a: "processEvents (E\<lparr>randomUUID := u1\<rparr>) (initial_state cache) evs = Some a"
    using processEvents_total[OF wf_initial] by blast
  have "same_but_ids (initial_state cache) (initial_state cache)"
    by (simp add: same_but_ids_def)
  from processEvents_same_but_ids[OF this wf_initial a, where ?u2.0 = u2]
  obtain b where b: "processEvents (E\<lparr>randomUUID := u2\<rparr>) (initial_state cache) evs = Some b"
    and R: "same_but_ids a b"
    by blast
  from R have "aiDecisionCache a = aiDecisionCache b"
    by (simp add: same_but_ids_def)
  with a b False finalizeLast_same_but_ids[OF R, where E = E and ua = u1 and ub = u2] show ?thesis
    by (simp add: aggregateToSessions_def)
qed

text \<open>
  C2, as stated, fails. Every session gets its identifier from \<open>randomUUID()\<close>, so two
  runs on the same single event, with the same lookup and the same empty cache, return
  sessions that differ in \<open>session_id\<close>. Other fields differ as well when the AI model or
  the suggestion store behave differently in the two runs. For the events of Notes at
  0 ms and of Spotify at 2000 ms, which no lookup categorises and for which the cache has
  no decision, the AI model is asked. When it answers that they are one session, the run
  returns one session from 0 ms to 7000 ms; when it answers that they are not, or when
  it is not available, the run returns two sessions. And when the model answers that
  they are one session and suggests a category, the write of the suggestion decides: a
  run in which it succeeds returns one session, a run in which it fails returns two.
\<close>

lemma run_with_uuid_a:
  "map_option (map session_id \<circ> fst)
      (aggregateToSessions (bare_env\<lparr>randomUUID := uuid_a\<rparr>) Map.empty
         [event_at 0 ''Notes'' False]) = Some [''a0'']"
  by code_simp

lemma run_with_uuid_b:
  "map_option (map session_id \<circ> fst)
      (aggregateToSessions (bare_env\<lparr>randomUUID := uuid_b\<rparr>) Map.empty
         [event_at 0 ''Notes'' False]) = Some [''b0'']"
  by code_simp

lemma run_answer_same:
  "map_option (map (\<lambda>s. (session_start s, session_end s)) \<circ> fst)
      (aggregateToSessions (answering_env True None True) Map.empty
         [event_at 0 ''Notes'' False, event_at 2000 ''Spotify'' False]) = Some [(0, 7000)]"
  by code_simp

lemma run_answer_different:
  "map_option (map (\<lambda>s. (session_start s, session_end s)) \<circ> fst)
      (aggregateToSessions (answering_env False None True) Map.empty
         [event_at 0 ''Notes'' False, event_at 2000 ''Spotify'' False])
     = Some [(0, 5000), (2000, 7000)]"
  by code_simp

lemma run_model_unavailable:
  "map_option (map (\<lambda>s. (session_start s, session_end s)) \<circ> fst)
      (aggregateToSessions ((answering_env True None True)\<lparr>isModelAvailable := False\<rparr>)
         Map.empty [event_at 0 ''Notes'' False, event_at 2000 ''Spotify'' False])
     = Some [(0, 5000), (2000, 7000)]"
  by code_simp

lemma run_suggestion_stored:
  "map_option (map (\<lambda>s. (session_start s, session_end s)) \<circ> fst)
      (aggregateToSessions (answering_env True (Some ''development'') True) Map.empty
         [event_at 0 ''Notes'' False, event_at 2000 ''Spotify'' False]) = Some [(0, 7000)]"
  by code_simp

lemma run_suggestion_not_stored:
  "map_option (map (\<lambda>s. (session_start s, session_end s)) \<circ> fst)
      (aggregateToSessions (answering_env True (Some ''development'') False) Map.empty
         [event_at 0 ''Notes'' False, event_at 2000 ''Spotify'' False])
     = Some [(0, 5000), (2000, 7000)]"
  by code_simp

theorem identical_sessions_counterexample:
  "map_option (map session_id \<circ> fst)
      (aggregateToSessions (bare_env\<lparr>randomUUID := uuid_a\<rparr>) Map.empty
         [event_at 0 ''Notes'' False]) = Some [''a0'']
   \<and> map_option (map session_id \<circ> fst)
      (aggregateToSessions (bare_env\<lparr>randomUUID := uuid_b\<rparr>) Map.empty
         [event_at 0 ''Notes'' False]) = Some [''b0'']
   \<and> map_option fst
      (aggregateToSessions (bare_env\<lparr>randomUUID := uuid_a\<rparr>) Map.empty
         [event_at 0 ''Notes'' False])
     \<noteq> map_option fst
      (aggregateToSessions (bare_env\<lparr>randomUUID := uuid_b\<rparr>) Map.empty
         [event_at 0 ''Notes'' False])
   \<and> map_option (map (\<lambda>s. (session_start s, session_end s)) \<circ> fst)
      (aggregateToSessions (answering_env True None True) Map.empty
         [event_at 0 ''Notes'' False, event_at 2000 ''Spotify'' False]) = Some [(0, 7000)]
   \<and> map_option (map (\<lambda>s. (session_start s, session_end s)) \<circ> fst)
      (aggregateToSessions (answering_env False None True) Map.empty
         [event_at 0 ''Notes'' False, event_at 2000 ''Spotify'' False])
     = Some [(0, 5000), (2000, 7000)]
   \<and> map_option (map (\<lambda>s. (session_start s, session_end s)) \<circ> fst)
      (aggregateToSessions ((answering_env True None True)\<lparr>isModelAvailable := False\<rparr>)
         Map.empty [event_at 0 ''Notes'' False, event_at 2000 ''Spotify'' False])
     = Some [(0, 5000), (2000, 7000)]
   \<and> map_option (map (\<lambda>s. (session_start s, session_end s)) \<circ> fst)
      (aggregateToSessions (answering_env True (Some ''development'') True) Map.empty
         [event_at 0 ''Notes'' False, event_at 2000 ''Spotify'' False]) = Some [(0, 7000)]
   \<and> map_option (map (\<lambda>s. (session_start s, session_end s)) \<circ> fst)
      (aggregateToSessions (answering_env True (Some ''development'') False) Map.empty
         [event_at 0 ''Notes'' False, event_at 2000 ''Spotify'' False])
     = Some [(0, 5000), (2000, 7000)]"
proof -
  let ?A = "aggregateToSessions (bare_env\<lparr>randomUUID := uuid_a\<rparr>) Map.empty
         [event_at 0 ''Notes'' False]"
  let ?B = "aggregateToSessions (bare_env\<lparr>randomUUID := uuid_b\<rparr>) Map.empty
         [event_at 0 ''Notes'' False]"
  have "map_option fst ?A \<noteq> map_option fst ?B"
  proof
    assume eq: "map_option fst ?A = map_option fst ?B"
    have "map_option (map session_id \<circ> fst) ?A
        = map_option (map session_id) (map_option fst ?A)"
      by (simp add: option.map_comp)
    also have "\<dots> = map_option (map session_id) (map_option fst ?B)"
      by (simp only: eq)
    also have "\<dots> = map_option (map session_id \<circ> fst) ?B"
      by (simp add: option.map_comp)
    finally show False
      unfolding run_with_uuid_a run_with_uuid_b by simp
  qed
  with run_with_uuid_a run_with_uuid_b run_answer_same run_answer_different
    run_model_unavailable run_suggestion_stored run_suggestion_not_stored
  show ?thesis
    by (intro conjI)
qed

text \<open>
  C2, amended. Two runs of \<open>aggregateToSessions\<close> on the same events, with the same
  decision cache at the start, in environments \<open>E1\<close> and \<open>E2\<close> that have the same category
  lookup, in which the AI model is equally available and gives the same answers and the
  writes of suggestions have the same outcomes, and that parse URLs, match regular
  expressions and extract titles alike, whatever identifiers \<open>randomUUID\<close> gives in each:
  both runs return, their session lists are equal in every field except \<open>session_id\<close>, and
  they leave the same decision cache.
\<close>

theorem sessions_equal_up_to_ids:
  assumes "categoryLookup E1 = categoryLookup E2"
    and "isModelAvailable E1 = isModelAvailable E2"
    and "callHaiku E1 = callHaiku E2"
    and "createOrUpdateSuggestion E1 = createOrUpdateSuggestion E2"
    and "url_hostname E1 = url_hostname E2"
    and "regexp_test_i E1 = regexp_test_i E2"
    and "title_extractors E1 = title_extractors E2"
  shows "\<exists>ss1 ss2 c. aggregateToSessions E1 cache evs = Some (ss1, c)
     \<and> aggregateToSessions E2 cache evs = Some (ss2, c)
     \<and> map erase_id ss1 = map erase_id ss2"
proof -
  have "E1 = E1\<lparr>randomUUID := randomUUID E1\<rparr>"
    by simp
  moreover from assms have "E2 = E1\<lparr>randomUUID := randomUUID E2\<rparr>"
    by simp
  ultimately show ?thesis
    using runs_equal_up_to_ids[where E = E1 and ?u1.0 = "randomUUID E1" and cache = cache
        and evs = evs and ?u2.0 = "randomUUID E2"]
    by simp
qed

lemma run_answered_uuid_a:
  "map_option (map session_id \<circ> fst)
     (aggregateToSessions ((answering_env True None True)\<lparr>randomUUID := uuid_a\<rparr>) Map.empty
        [event_at 0 ''Notes'' False, event_at 2000 ''Spotify'' False]) = Some [''a0'']"
  by code_simp

lemma run_answered_uuid_b:
  "map_option (map session_id \<circ> fst)
     (aggregateToSessions ((answering_env True None True)\<lparr>randomUUID := uuid_b\<rparr>) Map.empty
        [event_at 0 ''Notes'' False, event_at 2000 ''Spotify'' False]) = Some [''b0'']"
  by code_simp

theorem sessions_equal_up_to_ids_witness:
  "categoryLookup ((answering_env True None True)\<lparr>randomUUID := uuid_a\<rparr>)
     = categoryLookup ((answering_env True None True)\<lparr>randomUUID := uuid_b\<rparr>)
   \<and> isModelAvailable ((answering_env True None True)\<lparr>randomUUID := uuid_a\<rparr>)
     = isModelAvailable ((answering_env True None True)\<lparr>randomUUID := uuid_b\<rparr>)
   \<and> callHaiku ((answering_env True None True)\<lparr>randomUUID := uuid_a\<rparr>)
     = callHaiku ((answering_env True None True)\<lparr>randomUUID := uuid_b\<rparr>)
   \<and> createOrUpdateSuggestion ((answering_env True None True)\<lparr>randomUUID := uuid_a\<rparr>)
     = createOrUpdateSuggestion ((answering_env True None True)\<lparr>randomUUID := uuid_b\<rparr>)
   \<and> url_hostname ((answering_env True None True)\<lparr>randomUUID := uuid_a\<rparr>)
     = url_hostname ((answering_env True None True)\<lparr>randomUUID := uuid_b\<rparr>)
   \<and> regexp_test_i ((answering_env True None True)\<lparr>randomUUID := uuid_a\<rparr>)
     = regexp_test_i ((answering_env True None True)\<lparr>randomUUID := uuid_b\<rparr>)
   \<and> title_extractors ((answering_env True None True)\<lparr>randomUUID := uuid_a\<rparr>)
     = title_extractors ((answering_env True None True)\<lparr>randomUUID := uuid_b\<rparr>)
   \<and> map_option (map session_id \<circ> fst)
        (aggregateToSessions ((answering_env True None True)\<lparr>randomUUID := uuid_a\<rparr>) Map.empty
           [event_at 0 ''Notes'' False, event_at 2000 ''Spotify'' False]) = Some [''a0'']
   \<and> map_option (map session_id \<circ> fst)
        (aggregateToSessions ((answering_env True None True)\<lparr>randomUUID := uuid_b\<rparr>) Map.empty
           [event_at 0 ''Notes'' False, event_at 2000 ''Spotify'' False]) = Some [''b0'']
   \<and> (\<exists>ss1 ss2 c.
         aggregateToSessions ((answering_env True None True)\<lparr>randomUUID := uuid_a\<rparr>) Map.empty
           [event_at 0 ''Notes'' False, event_at 2000 ''Spotify'' False] = Some (ss1, c)
         \<and> aggregateToSessions ((answering_env True None True)\<lparr>randomUUID := uuid_b\<rparr>) Map.empty
           [event_at 0 ''Notes'' False, event_at 2000 ''Spotify'' False] = Some (ss2, c)
         \<and> map erase_id ss1 = map erase_id ss2)"
proof -
  let ?A = "(answering_env True None True)\<lparr>randomUUID := uuid_a\<rparr>"
  let ?B = "(answering_env True None True)\<lparr>randomUUID := uuid_b\<rparr>"
  have h: "categoryLookup ?A = categoryLookup ?B" "isModelAvailable ?A = isModelAvailable ?B"
    "callHaiku ?A = callHaiku ?B" "createOrUpdateSuggestion ?A = createOrUpdateSuggestion ?B"
    "url_hostname ?A = url_hostname ?B" "regexp_test_i ?A = regexp_test_i ?B"
    "title_extractors ?A = title_extractors ?B"
    by simp_all
  note ia = run_answered_uuid_a and ib = run_answered_uuid_b
  from sessions_equal_up_to_ids[OF h, of Map.empty
      "[event_at 0 ''Notes'' False, event_at 2000 ''Spotify'' False]"] h ia ib
  show ?thesis
    by (intro conjI)
qed

section \<open>Order of the sessions\<close>

lemma finalizeSession_times:
  assumes "finalizeSession E n session = Some s"
  shows "session_start s = timestamp (hd (cur_events session))"
    and "session_end s = timestamp (last (cur_events session))
           + duration_or_5 (last (cur_events session)) * 1000"
    and "session_duration s = round_div (session_end s - session_start s) 1000"
    and "session_type s = Active"
  using assms by (cases "cur_events session"; simp add: finalizeSession_def Let_def; force)+

lemma map_butlast_last: "xs \<noteq> [] \<Longrightarrow> map f (butlast xs) @ [f (last xs)] = map f xs"
  by (induction xs) auto

lemma idleStep_starts:
  assumes "sorted (map session_start (sessions st))"
    and "\<forall>s \<in> set (sessions st). session_start s \<le> timestamp e"
  shows "sorted (map session_start (sessions (idleStep E st e)))
    \<and> (\<forall>s \<in> set (sessions (idleStep E st e)). session_start s \<le> timestamp e)"
proof (cases "sessions st \<noteq> [] \<and> session_type (last (sessions st)) = Idle")
  case True
  then have m: "map session_start (sessions (idleStep E st e)) = map session_start (sessions st)"
    by (simp add: idleStep_def map_butlast_last)
  have "\<forall>t \<in> set (map session_start (sessions (idleStep E st e))). t \<le> timestamp e"
    unfolding m using assms(2) by simp
  then have "\<forall>s \<in> set (sessions (idleStep E st e)). session_start s \<le> timestamp e"
    by simp
  moreover have "sorted (map session_start (sessions (idleStep E st e)))"
    unfolding m by (rule assms(1))
  ultimately show ?thesis
    by blast
next
  case False
  with assms show ?thesis
    by (auto simp: idleStep_def idleSession_def sorted_append)
qed

lemma processEvent_starts_inv:
  assumes inv: "starts_inv st (e # es)" and wf: "wf_state st"
    and run: "processEvent E st e = Some st'"
  shows "starts_inv st' es"
proof -
  from inv have srt: "sorted (map timestamp es)" and le: "\<forall>e' \<in> set es. timestamp e \<le> timestamp e'"
    and ss: "sorted (map session_start (sessions st))"
    and se: "\<forall>s \<in> set (sessions st). session_start s \<le> timestamp e"
    by (auto simp: starts_inv_def)
  from run wf show ?thesis
  proof (cases rule: processEvent_cases)
    case (idle_open session s)
    from inv idle_open(2) have
      h: "\<forall>x \<in> set (sessions st). session_start x \<le> timestamp (hd (cur_events session))"
        "timestamp (hd (cur_events session)) \<le> timestamp e"
      by (auto simp: starts_inv_def)
    let ?st1 = "st\<lparr>sessions := sessions st @ [s], current := None,
                uuid_calls := uuid_calls st + 1\<rparr>"
    have "sorted (map session_start (sessions ?st1))"
      "\<forall>x \<in> set (sessions ?st1). session_start x \<le> timestamp e"
      using ss se h finalizeSession_times(1)[OF idle_open(3)] by (auto simp: sorted_append)
    from idleStep_starts[OF this, of E] idle_open(4) srt le show ?thesis
      by (force simp: starts_inv_def)
  next
    case idle_none
    with idleStep_starts[OF ss se, of E] srt le show ?thesis
      by (force simp: starts_inv_def)
  next
    case start
    with srt le ss se inv show ?thesis
      by (auto simp: starts_inv_def)
  next
    case (merge session d c)
    with srt le ss se inv show ?thesis
      by (auto simp: starts_inv_def)
  next
    case (split session d c s)
    from inv split(2) have
      h: "\<forall>x \<in> set (sessions st). session_start x \<le> timestamp (hd (cur_events session))"
        "timestamp (hd (cur_events session)) \<le> timestamp e"
        "\<forall>e' \<in> set es. timestamp (hd (cur_events session)) \<le> timestamp e'"
      by (auto simp: starts_inv_def)
    from inv have old: "\<forall>x \<in> set (sessions st). \<forall>e' \<in> set es. session_start x \<le> timestamp e'"
      by (auto simp: starts_inv_def)
    from split(7) h old srt le ss se finalizeSession_times(1)[OF split(6)] show ?thesis
      by (auto simp: starts_inv_def sorted_append)
  qed
qed

lemma processEvents_starts_inv:
  "starts_inv st es \<Longrightarrow> wf_state st \<Longrightarrow> processEvents E st es = Some st' \<Longrightarrow>
   starts_inv st' []"
proof (induction es arbitrary: st)
  case Nil
  then show ?case
    by simp
next
  case (Cons e es)
  from Cons.prems(3) obtain st1 where
    st1: "processEvent E st e = Some st1" "processEvents E st1 es = Some st'"
    by (auto split: option.splits)
  from Cons.IH[OF processEvent_starts_inv[OF Cons.prems(1,2) st1(1)]
      processEvent_wf[OF st1(1) Cons.prems(2)] st1(2)]
  show ?case .
qed

lemma finalizeLast_starts:
  assumes "starts_inv st []"
  shows "sorted (map session_start (finalizeLast E st))"
proof (cases "current st")
  case None
  with assms show ?thesis
    by (simp add: finalizeLast_def starts_inv_def)
next
  case (Some session)
  show ?thesis
  proof (cases "finalizeSession E (uuid_calls st) session")
    case None
    with Some assms show ?thesis
      by (simp add: finalizeLast_def starts_inv_def)
  next
    case (Some s)
    with \<open>current st = Some session\<close> assms finalizeSession_times(1)[OF Some] show ?thesis
      by (auto simp: finalizeLast_def starts_inv_def sorted_append)
  qed
qed


lemma successively_snoc:
  "successively P (xs @ [x]) \<longleftrightarrow> successively P xs \<and> (xs = [] \<or> P (last xs) x)"
  by (simp add: successively_append_iff)

lemma successively_replace_last:
  assumes "xs \<noteq> []" and "successively P xs" and "\<And>y. P y (last xs) \<Longrightarrow> P y x"
  shows "successively P (butlast xs @ [x])"
proof -
  from assms(1) have "xs = butlast xs @ [last xs]"
    by simp
  with assms(2) have "successively P (butlast xs @ [last xs])"
    by simp
  with assms(3) show ?thesis
    by (auto simp: successively_snoc)
qed

lemma successively_Cons_hd:
  "successively P (e # es) \<Longrightarrow> es \<noteq> [] \<Longrightarrow> P e (hd es)"
  by (cases es) auto

lemma successively_tail: "successively P (e # es) \<Longrightarrow> successively P es"
  by (cases es) auto

lemma idleStep_chain_inv:
  assumes inv: "chain_inv st (e # es)" and none: "current st = None"
  shows "chain_inv (idleStep E st e) es"
proof -
  from inv none have ch: "successively sessions_apart (sessions st)"
    and ord: "successively in_order (e # es)"
    and fr: "sessions st \<noteq> [] \<Longrightarrow> session_end (last (sessions st)) \<le> timestamp e"
    by (simp_all add: chain_inv_def)
  have nxt: "es \<noteq> [] \<Longrightarrow> timestamp e \<le> timestamp (hd es)
      \<and> timestamp e + duration_or_5 e * 1000 \<le> timestamp (hd es)"
    using successively_Cons_hd[OF ord] by (simp add: in_order_def no_overlap_def)
  show ?thesis
  proof (cases "sessions st \<noteq> [] \<and> session_type (last (sessions st)) = Idle")
    case True
    let ?x = "(last (sessions st))\<lparr>session_end := timestamp e,
        session_duration := session_duration (last (sessions st)) + duration_or_5 e\<rparr>"
    have "successively sessions_apart (butlast (sessions st) @ [?x])"
      using True ch by (intro successively_replace_last) (simp_all add: sessions_apart_def)
    moreover from True have "idleStep E st e = st\<lparr>sessions := butlast (sessions st) @ [?x]\<rparr>"
      by (simp add: idleStep_def)
    ultimately show ?thesis
      using none nxt successively_tail[OF ord]
      by (simp add: chain_inv_def)
  next
    case False
    have "successively sessions_apart (sessions st @
        [idleSession E (uuid_calls st) e
           (if sessions st = [] then None else category (last (sessions st)))])"
      using ch fr by (auto simp: successively_snoc sessions_apart_def idleSession_def)
    moreover from False have "idleStep E st e = st\<lparr>sessions := sessions st @
        [idleSession E (uuid_calls st) e
           (if sessions st = [] then None else category (last (sessions st)))],
        uuid_calls := uuid_calls st + 1\<rparr>"
      by (auto simp: idleStep_def)
    ultimately show ?thesis
      using none nxt successively_tail[OF ord]
      by (simp add: chain_inv_def idleSession_def)
  qed
qed

lemma processEvent_chain_inv:
  assumes inv: "chain_inv st (e # es)" and wf: "wf_state st"
    and run: "processEvent E st e = Some st'"
  shows "chain_inv st' es"
proof -
  from inv have ch: "successively sessions_apart (sessions st)"
    by (simp add: chain_inv_def)
  from run wf show ?thesis
  proof (cases rule: processEvent_cases)
    case (idle_open session s)
    from inv idle_open(2) have
      ord: "successively in_order (last (cur_events session) # e # es)"
      and fr: "sessions st \<noteq> [] \<Longrightarrow>
        session_end (last (sessions st)) \<le> timestamp (hd (cur_events session))"
      by (simp_all add: chain_inv_def)
    note t = finalizeSession_times[OF idle_open(3)]
    let ?st1 = "st\<lparr>sessions := sessions st @ [s], current := None,
                uuid_calls := uuid_calls st + 1\<rparr>"
    have "chain_inv ?st1 (e # es)"
      using ch ord fr t
      by (auto simp: chain_inv_def successively_snoc sessions_apart_def in_order_def
          no_overlap_def)
    from idleStep_chain_inv[OF this, of E] idle_open(4) show ?thesis
      by simp
  next
    case idle_none
    with idleStep_chain_inv[OF inv, of E] show ?thesis
      by simp
  next
    case start
    with inv show ?thesis
      by (simp add: chain_inv_def)
  next
    case (merge session d c)
    with inv have "successively in_order (last (cur_events session) # e # es)"
      by (simp add: chain_inv_def)
    then have "successively in_order (e # es)"
      by simp
    with merge inv show ?thesis
      by (simp add: chain_inv_def)
  next
    case (split session d c s)
    from inv split(2) have
      ord: "successively in_order (last (cur_events session) # e # es)"
      and fr: "sessions st \<noteq> [] \<Longrightarrow>
        session_end (last (sessions st)) \<le> timestamp (hd (cur_events session))"
      by (simp_all add: chain_inv_def)
    note t = finalizeSession_times[OF split(6)]
    from split(7) ch ord fr t show ?thesis
      by (auto simp: chain_inv_def successively_snoc sessions_apart_def in_order_def
          no_overlap_def)
  qed
qed

lemma processEvents_chain_inv:
  "chain_inv st es \<Longrightarrow> wf_state st \<Longrightarrow> processEvents E st es = Some st' \<Longrightarrow>
   chain_inv st' []"
proof (induction es arbitrary: st)
  case Nil
  then show ?case
    by simp
next
  case (Cons e es)
  from Cons.prems(3) obtain st1 where
    st1: "processEvent E st e = Some st1" "processEvents E st1 es = Some st'"
    by (auto split: option.splits)
  from Cons.IH[OF processEvent_chain_inv[OF Cons.prems(1,2) st1(1)]
      processEvent_wf[OF st1(1) Cons.prems(2)] st1(2)]
  show ?case .
qed

lemma finalizeLast_chain:
  assumes "chain_inv st []"
  shows "successively sessions_apart (finalizeLast E st)"
proof (cases "current st")
  case None
  with assms show ?thesis
    by (simp add: finalizeLast_def chain_inv_def)
next
  case (Some session)
  show ?thesis
  proof (cases "finalizeSession E (uuid_calls st) session")
    case None
    with Some assms show ?thesis
      by (simp add: finalizeLast_def chain_inv_def)
  next
    case (Some s)
    with \<open>current st = Some session\<close> assms finalizeSession_times(1)[OF Some] show ?thesis
      by (auto simp: finalizeLast_def chain_inv_def successively_snoc sessions_apart_def)
  qed
qed

lemma sorted_in_order:
  "sorted (map timestamp es) \<Longrightarrow> successively no_overlap es \<Longrightarrow> successively in_order es"
proof (induction es)
  case Nil
  then show ?case
    by simp
next
  case (Cons e es)
  show ?case
  proof (cases es)
    case Nil
    then show ?thesis
      by simp
  next
    case (Cons e' es')
    with Cons.prems Cons.IH show ?thesis
      by (simp add: in_order_def)
  qed
qed

text \<open>
  C1, as stated, fails. An active event at 0 ms (default duration 5 s) followed by an idle
  event at 1000 ms is sorted input, but the active session ends at 5000 ms and the idle
  session starts at 1000 ms.
\<close>

theorem sessions_overlap_counterexample:
  "sorted (map timestamp [event_at 0 ''Notes'' False, event_at 1000 ''Notes'' True])
   \<and> map_option (map (\<lambda>s. (session_start s, session_end s)) \<circ> fst)
        (aggregateToSessions bare_env Map.empty
           [event_at 0 ''Notes'' False, event_at 1000 ''Notes'' True])
       = Some [(0, 5000), (1000, 6000)]
   \<and> map_option (successively sessions_apart \<circ> fst)
        (aggregateToSessions bare_env Map.empty
           [event_at 0 ''Notes'' False, event_at 1000 ''Notes'' True])
       = Some False"
  by code_simp

text \<open>
  C1, amended. For every event sequence sorted ascending by timestamp the aggregation
  returns sessions whose start timestamps are in ascending order; and when, moreover, no
  event overlaps the next one (its timestamp plus its duration, 5 seconds by default, is
  at most the next timestamp), each session's end is less than or equal to the next
  session's start.
\<close>

theorem sessions_ordered:
  assumes "sorted (map timestamp evs)"
  shows "\<exists>ss c. aggregateToSessions E cache evs = Some (ss, c)
     \<and> sorted (map session_start ss)
     \<and> (successively no_overlap evs \<longrightarrow> successively sessions_apart ss)"
proof (cases "evs = []")
  case True
  then show ?thesis
    by (simp add: aggregateToSessions_def)
next
  case False
  obtain st where st: "processEvents E (initial_state cache) evs = Some st"
    using processEvents_total[OF wf_initial] by blast
  have "starts_inv (initial_state cache) evs"
    using assms by (simp add: starts_inv_def initial_state_def)
  from finalizeLast_starts[OF processEvents_starts_inv[OF this wf_initial st]]
  have A: "sorted (map session_start (finalizeLast E st))" .
  have B: "successively sessions_apart (finalizeLast E st)" if "successively no_overlap evs"
  proof -
    have "chain_inv (initial_state cache) evs"
      using sorted_in_order[OF assms that] by (simp add: chain_inv_def initial_state_def)
    from finalizeLast_chain[OF processEvents_chain_inv[OF this wf_initial st]]
    show ?thesis .
  qed
  from A B st False show ?thesis
    by (simp add: aggregateToSessions_def)
qed

theorem sessions_ordered_witness:
  "sorted (map timestamp [event_at 0 ''Notes'' False, event_at 5000 ''Notes'' True])
   \<and> successively no_overlap [event_at 0 ''Notes'' False, event_at 5000 ''Notes'' True]
   \<and> (\<exists>ss c. aggregateToSessions bare_env Map.empty
           [event_at 0 ''Notes'' False, event_at 5000 ''Notes'' True] = Some (ss, c)
         \<and> length ss = 2 \<and> sorted (map session_start ss)
         \<and> successively sessions_apart ss)"
proof -
  have h: "sorted (map timestamp [event_at 0 ''Notes'' False, event_at 5000 ''Notes'' True])"
    by (simp add: event_at_def)
  have n: "successively no_overlap [event_at 0 ''Notes'' False, event_at 5000 ''Notes'' True]"
    by (simp add: event_at_def no_overlap_def duration_or_5_def)
  from sessions_ordered[OF h, of bare_env Map.empty] n
  obtain ss c where run: "aggregateToSessions bare_env Map.empty
           [event_at 0 ''Notes'' False, event_at 5000 ''Notes'' True] = Some (ss, c)"
    and ok: "sorted (map session_start ss)" "successively sessions_apart ss"
    by blast
  from run run_active_then_idle have "length ss = 2"
    by auto
  with h n run ok show ?thesis
    by blast
qed

section \<open>Idle coalescing\<close>

text \<open>
  For every input, the idle sessions of the result correspond one to one, in order, to
  the maximal runs of consecutive idle events: the session of a run starts at the
  timestamp of the run's first event and its duration is the sum of the durations of the
  run's events, each 5 seconds when absent. The session of a single idle event ends when
  that event ends; the session of a longer run ends at the timestamp of the run's last
  event, where that event starts.
\<close>

lemma idle_session_of_run:
  "\<exists>ss c. aggregateToSessions E cache evs = Some (ss, c)
     \<and> list_all2
          (\<lambda>s r. session_start s = timestamp (hd r)
             \<and> session_duration s = sum_list (map duration_or_5 r)
             \<and> session_end s =
                 (if length r = 1 then timestamp (hd r) + duration_or_5 (hd r) * 1000
                  else timestamp (last r)))
          (filter is_idle_session ss) (idle_runs evs)"
proof -
  from idle_sessions_of_runs[of E cache evs] obtain ss c where
    run: "aggregateToSessions E cache evs = Some (ss, c)"
    and v: "idle_views ss = map run_view (idle_runs evs)"
    by blast
  from v have "list_all2 (\<lambda>s r. (session_start s, session_end s, session_duration s) = run_view r)
      (filter is_idle_session ss) (idle_runs evs)"
    by (simp add: idle_views_def list_all2_eq list_all2_map1 list_all2_map2)
  then have "list_all2
          (\<lambda>s r. session_start s = timestamp (hd r)
             \<and> session_duration s = sum_list (map duration_or_5 r)
             \<and> session_end s =
                 (if length r = 1 then timestamp (hd r) + duration_or_5 (hd r) * 1000
                  else timestamp (last r)))
          (filter is_idle_session ss) (idle_runs evs)"
    by (rule list.rel_mono_strong) (simp add: run_view_def)
  with run show ?thesis
    by blast
qed

text \<open>
  C4. The code does not do what the claim says of the end of the session. Two idle events
  at 0 ms and 5000 ms, each with the default duration of 5 seconds, are one maximal run
  that lasts from 0 ms to 10000 ms. The result has one idle session for it, with duration
  10, the sum of the two durations, but this session ends at 5000 ms: the branch that
  extends the last idle session sets its end to the timestamp of the event, where the
  branch that creates an idle session adds the duration of the event, as the result for
  the first event alone shows. The session does not cover the second event of its run.
\<close>

theorem idle_extension_ends_at_timestamp:
  "idle_runs [event_at 0 ''Notes'' True, event_at 5000 ''Notes'' True]
     = [[event_at 0 ''Notes'' True, event_at 5000 ''Notes'' True]]
   \<and> timestamp (event_at 5000 ''Notes'' True) + duration_or_5 (event_at 5000 ''Notes'' True) * 1000
     = 10000
   \<and> map_option (map (\<lambda>s. (session_type s, session_start s, session_end s, session_duration s))
       \<circ> fst)
     (aggregateToSessions bare_env Map.empty
        [event_at 0 ''Notes'' True, event_at 5000 ''Notes'' True])
   = Some [(Idle, 0, 5000, 10)]
   \<and> map_option (map (\<lambda>s. (session_type s, session_start s, session_end s, session_duration s))
       \<circ> fst)
     (aggregateToSessions bare_env Map.empty [event_at 0 ''Notes'' True])
   = Some [(Idle, 0, 5000, 5)]"
  by code_simp

section \<open>Durations\<close>

text \<open>
  C3, as stated, fails. Two active events of one application at 0 ms and 1500 ms merge
  into a session from 0 ms to 6500 ms whose duration field is 7, not 6.5; two idle events
  at 0 ms and 60000 ms give one idle session from 0 ms to 60000 ms whose duration field
  is 10, the sum of the two default durations.
\<close>

theorem duration_counterexample:
  "map_option (map (\<lambda>s. (session_type s, session_start s, session_end s, session_duration s))
       \<circ> fst)
     (aggregateToSessions bare_env Map.empty
        [event_at 0 ''Notes'' False, event_at 1500 ''Notes'' False])
   = Some [(Active, 0, 6500, 7)]
   \<and> map_option (map (\<lambda>s. (session_type s, session_start s, session_end s, session_duration s))
       \<circ> fst)
     (aggregateToSessions bare_env Map.empty
        [event_at 0 ''Notes'' True, event_at 60000 ''Notes'' True])
   = Some [(Idle, 0, 60000, 10)]
   \<and> (7::int) * 1000 \<noteq> 6500 - 0 \<and> (10::int) * 1000 \<noteq> 60000 - 0"
  by code_simp

text \<open>
  C3, amended. \<open>memberEvents E cache evs\<close> gives, session by session, the member events of
  the sessions of the result: together, in order, they are the input, and the groups of
  idle events among them are the maximal runs of idle events of the input. Every session
  has a member event. An active session has active member events only; it starts at the
  timestamp of its first member event, its end is the timestamp of its last member event
  plus that event's duration, and its duration field is end minus start in seconds
  rounded to the nearest integer, which is end minus start exactly when the timestamps
  of its member events are whole seconds. An idle session has idle member events only,
  its duration field is the sum of their durations, and this is end minus start when it
  has a single member event. The last part says the same of the idle sessions in terms
  of the maximal runs of idle events.
\<close>

theorem duration_is_end_minus_start:
  "\<exists>ss c. aggregateToSessions E cache evs = Some (ss, c)
     \<and> concat (memberEvents E cache evs) = evs
     \<and> filter (list_all isIdle) (memberEvents E cache evs) = idle_runs evs
     \<and> list_all2
          (\<lambda>s es. es \<noteq> []
             \<and> (session_type s = Active \<longrightarrow>
                  list_all (\<lambda>e. \<not> isIdle e) es
                  \<and> session_start s = timestamp (hd es)
                  \<and> session_end s = timestamp (last es) + duration_or_5 (last es) * 1000
                  \<and> session_duration s = round_div (session_end s - session_start s) 1000
                  \<and> (list_all (\<lambda>e. 1000 dvd timestamp e) es \<longrightarrow>
                       session_duration s * 1000 = session_end s - session_start s))
             \<and> (session_type s = Idle \<longrightarrow>
                  list_all isIdle es
                  \<and> session_duration s = sum_list (map duration_or_5 es)
                  \<and> (length es = 1 \<longrightarrow>
                       session_duration s * 1000 = session_end s - session_start s)))
          ss (memberEvents E cache evs)
     \<and> list_all2
          (\<lambda>s r. session_duration s = sum_list (map duration_or_5 r)
             \<and> (length r = 1 \<longrightarrow> session_duration s * 1000 = session_end s - session_start s))
          (filter is_idle_session ss) (idle_runs evs)"
proof -
  from sessions_of_members[of E cache evs] obtain ss c where
    run: "aggregateToSessions E cache evs = Some (ss, c)"
    and mem: "list_all2 members_of ss (memberEvents E cache evs)"
    by blast
  from idle_sessions_of_runs[of E cache evs] run have
    v: "idle_views ss = map run_view (idle_runs evs)"
    by auto
  have C: "concat (memberEvents E cache evs) = evs"
    by (simp add: memberEvents_def concat_sessionEvents)
  from mem have A: "list_all2
          (\<lambda>s es. es \<noteq> []
             \<and> (session_type s = Active \<longrightarrow>
                  list_all (\<lambda>e. \<not> isIdle e) es
                  \<and> session_start s = timestamp (hd es)
                  \<and> session_end s = timestamp (last es) + duration_or_5 (last es) * 1000
                  \<and> session_duration s = round_div (session_end s - session_start s) 1000
                  \<and> (list_all (\<lambda>e. 1000 dvd timestamp e) es \<longrightarrow>
                       session_duration s * 1000 = session_end s - session_start s))
             \<and> (session_type s = Idle \<longrightarrow>
                  list_all isIdle es
                  \<and> session_duration s = sum_list (map duration_or_5 es)
                  \<and> (length es = 1 \<longrightarrow>
                       session_duration s * 1000 = session_end s - session_start s)))
          ss (memberEvents E cache evs)"
  proof (rule list.rel_mono_strong)
    fix s es
    assume m: "members_of s es"
    have "session_duration s * 1000 = session_end s - session_start s"
      if "session_type s = Active" "list_all (\<lambda>e. 1000 dvd timestamp e) es"
      using spans_exact[of s es] m that by (simp add: members_of_def list_all_iff)
    with m show "es \<noteq> []
             \<and> (session_type s = Active \<longrightarrow>
                  list_all (\<lambda>e. \<not> isIdle e) es
                  \<and> session_start s = timestamp (hd es)
                  \<and> session_end s = timestamp (last es) + duration_or_5 (last es) * 1000
                  \<and> session_duration s = round_div (session_end s - session_start s) 1000
                  \<and> (list_all (\<lambda>e. 1000 dvd timestamp e) es \<longrightarrow>
                       session_duration s * 1000 = session_end s - session_start s))
             \<and> (session_type s = Idle \<longrightarrow>
                  list_all isIdle es
                  \<and> session_duration s = sum_list (map duration_or_5 es)
                  \<and> (length es = 1 \<longrightarrow>
                       session_duration s * 1000 = session_end s - session_start s))"
      by (cases es) (auto simp: members_of_def spans_def run_view_def)
  qed
  from v have "list_all2 (\<lambda>s r. (session_start s, session_end s, session_duration s) = run_view r)
      (filter is_idle_session ss) (idle_runs evs)"
    by (simp add: idle_views_def list_all2_eq list_all2_map1 list_all2_map2)
  then have B: "list_all2
          (\<lambda>s r. session_duration s = sum_list (map duration_or_5 r)
             \<and> (length r = 1 \<longrightarrow> session_duration s * 1000 = session_end s - session_start s))
          (filter is_idle_session ss) (idle_runs evs)"
  proof (rule list.rel_mono_strong)
    fix s r
    assume "(session_start s, session_end s, session_duration s) = run_view r"
    then show "session_duration s = sum_list (map duration_or_5 r)
             \<and> (length r = 1 \<longrightarrow> session_duration s * 1000 = session_end s - session_start s)"
      by (cases r) (auto simp: run_view_def)
  qed
  from run C idle_groups_are_runs[of E cache evs] A B show ?thesis
    by blast
qed

lemma members_two_active_then_idle:
  "memberEvents bare_env Map.empty
     [event_at 0 ''Notes'' False, event_at 2000 ''Notes'' False, event_at 10000 ''Notes'' True]
   = [[event_at 0 ''Notes'' False, event_at 2000 ''Notes'' False], [event_at 10000 ''Notes'' True]]"
  by code_simp

lemma run_two_active_then_idle:
  "map_option (map (\<lambda>s. (session_type s, session_start s, session_end s, session_duration s))
       \<circ> fst)
     (aggregateToSessions bare_env Map.empty
        [event_at 0 ''Notes'' False, event_at 2000 ''Notes'' False, event_at 10000 ''Notes'' True])
   = Some [(Active, 0, 7000, 7), (Idle, 10000, 15000, 5)]"
  by code_simp

theorem duration_is_end_minus_start_witness:
  "memberEvents bare_env Map.empty
     [event_at 0 ''Notes'' False, event_at 2000 ''Notes'' False, event_at 10000 ''Notes'' True]
   = [[event_at 0 ''Notes'' False, event_at 2000 ''Notes'' False], [event_at 10000 ''Notes'' True]]
   \<and> list_all (\<lambda>e. 1000 dvd timestamp e)
        [event_at 0 ''Notes'' False, event_at 2000 ''Notes'' False]
   \<and> idle_runs [event_at 0 ''Notes'' False, event_at 2000 ''Notes'' False,
        event_at 10000 ''Notes'' True] = [[event_at 10000 ''Notes'' True]]
   \<and> (\<exists>ss c. aggregateToSessions bare_env Map.empty
         [event_at 0 ''Notes'' False, event_at 2000 ''Notes'' False, event_at 10000 ''Notes'' True]
           = Some (ss, c)
        \<and> map session_type ss = [Active, Idle]
        \<and> session_start (hd ss) = 0 \<and> session_end (hd ss) = 7000
        \<and> session_duration (hd ss) = 7
        \<and> list_all (\<lambda>s. session_duration s * 1000 = session_end s - session_start s) ss)"
proof -
  let ?evs = "[event_at 0 ''Notes'' False, event_at 2000 ''Notes'' False,
    event_at 10000 ''Notes'' True]"
  let ?P = "\<lambda>s es. es \<noteq> []
             \<and> (session_type s = Active \<longrightarrow>
                  list_all (\<lambda>e. \<not> isIdle e) es
                  \<and> session_start s = timestamp (hd es)
                  \<and> session_end s = timestamp (last es) + duration_or_5 (last es) * 1000
                  \<and> session_duration s = round_div (session_end s - session_start s) 1000
                  \<and> (list_all (\<lambda>e. 1000 dvd timestamp e) es \<longrightarrow>
                       session_duration s * 1000 = session_end s - session_start s))
             \<and> (session_type s = Idle \<longrightarrow>
                  list_all isIdle es
                  \<and> session_duration s = sum_list (map duration_or_5 es)
                  \<and> (length es = 1 \<longrightarrow>
                       session_duration s * 1000 = session_end s - session_start s))"
  have al: "list_all (\<lambda>e. 1000 dvd timestamp e)
      [event_at 0 ''Notes'' False, event_at 2000 ''Notes'' False]"
    by (simp add: event_at_def)
  have runs: "idle_runs ?evs = [[event_at 10000 ''Notes'' True]]"
    by (simp add: event_at_def)
  note mem = members_two_active_then_idle
  from duration_is_end_minus_start[of bare_env Map.empty ?evs] obtain ss c where
    run: "aggregateToSessions bare_env Map.empty ?evs = Some (ss, c)"
    and act: "list_all2 ?P ss (memberEvents bare_env Map.empty ?evs)"
    and idl: "list_all2
          (\<lambda>s r. session_duration s = sum_list (map duration_or_5 r)
             \<and> (length r = 1 \<longrightarrow> session_duration s * 1000 = session_end s - session_start s))
          (filter is_idle_session ss) (idle_runs ?evs)"
    by blast
  from run run_two_active_then_idle have
    ty: "map (\<lambda>s. (session_type s, session_start s, session_end s, session_duration s)) ss
      = [(Active, 0, 7000, 7), (Idle, 10000, 15000, 5)]"
    by simp
  then obtain a i where ss: "ss = [a, i]" and a: "session_type a = Active"
    and i: "session_type i = Idle"
    by auto
  from act have "list_all2 ?P [a, i]
      [[event_at 0 ''Notes'' False, event_at 2000 ''Notes'' False], [event_at 10000 ''Notes'' True]]"
    unfolding mem ss .
  then have Pa: "?P a [event_at 0 ''Notes'' False, event_at 2000 ''Notes'' False]"
    unfolding list_all2_Cons by (rule conjunct1)
  with a al have fa: "session_start a = 0" "session_end a = 7000"
    "session_duration a * 1000 = session_end a - session_start a"
    by (simp_all add: event_at_def duration_or_5_def round_div_def)
  then have da: "session_duration a = 7"
    by simp
  from idl a i have di: "session_duration i * 1000 = session_end i - session_start i"
    unfolding runs ss by (simp add: is_idle_session_def)
  have ty': "map session_type ss = [Active, Idle]"
    and st: "session_start (hd ss) = 0" and en: "session_end (hd ss) = 7000"
    and du: "session_duration (hd ss) = 7"
    and ok: "list_all (\<lambda>s. session_duration s * 1000 = session_end s - session_start s) ss"
    unfolding ss using a i fa da di by simp_all
  show ?thesis
    using mem al runs run ty' st en du ok by (intro conjI exI[of _ ss] exI[of _ c])
qed

section \<open>Category resolution and domain patterns\<close>

text \<open>The loop over the patterns returns the category of the first pattern that matches.\<close>

lemma firstPattern_find:
  "firstPattern E d ps = map_option snd (find (\<lambda>(p, c). matchesDomainPattern E d p) ps)"
  by (induction ps) auto

text \<open>
  For a pattern whose only syntax characters are dots and stars, the expression that
  \<open>matchesDomainPattern\<close> builds is the wildcard match of the whole domain.
\<close>

lemma replace_encode: "replace_stars (replace_dots p) = concat (map encode_char p)"
  by (induction p) (simp_all add: replace_dots_def replace_stars_def encode_char_def)

lemma split_bar_no_bar: "CHR ''|'' \<notin> set s \<Longrightarrow> split_bar s = [s]"
  by (induction s) auto

lemma plain_no_bar:
  assumes "plain_pattern p"
  shows "CHR ''|'' \<notin> set (domainPatternSource p)"
proof -
  have "CHR ''|'' \<notin> set (encode_char c)" if "c \<noteq> CHR ''|''" for c
    using that by (simp add: encode_char_def)
  moreover from assms have "\<forall>c \<in> set p. c \<noteq> CHR ''|''"
    by (auto simp: plain_pattern_def)
  ultimately show ?thesis
    by (auto simp: domainPatternSource_def replace_encode)
qed

lemma parse_items_encode:
  "plain_pattern p \<Longrightarrow> parse_items (concat (map encode_char p)) = Some (map item_of p)"
proof (induction p)
  case Nil
  then show ?case
    by simp
next
  case (Cons c p)
  then have IH: "parse_items (concat (map encode_char p)) = Some (map item_of p)"
    and c: "c \<notin> set (CHR 0x5C # ''^$+?()[]{}|'')"
    by (simp_all add: plain_pattern_def)
  consider "c = CHR ''.''" | "c = CHR ''*''" | "c \<noteq> CHR ''.''" "c \<noteq> CHR ''*''"
    by blast
  then show ?case
  proof cases
    case 1
    then have "encode_char c = [CHR 0x5C, CHR ''.'']" "item_of c = Lit (CHR ''.'')"
      by (simp_all add: encode_char_def item_of_def)
    with IH show ?thesis
      by simp
  next
    case 2
    then have "encode_char c = ''.*''" "item_of c = AnyRun"
      by (simp_all add: encode_char_def item_of_def)
    with IH show ?thesis
      by simp
  next
    case 3
    with c have "c \<noteq> CHR 0x5C" "c \<noteq> CHR ''.''" "c \<notin> set syntax_chars"
      by (auto simp: syntax_chars_def)
    moreover from 3 have "encode_char c = [c]" "item_of c = Lit c"
      by (simp_all add: encode_char_def item_of_def)
    ultimately show ?thesis
      using IH by simp
  qed
qed

lemma parse_alternative_anchored:
  "parse_alternative (CHR ''^'' # body @ ''$'')
     = map_option (\<lambda>items. (True, items, True)) (parse_items body)"
  by (simp add: parse_alternative_def)

lemma match_items_wildcard: "match_items (map item_of p) d = wildcard_match p d"
  by (induction p d rule: wildcard_match.induct) (auto simp: item_of_def split: list.splits)

lemma plain_pattern_regexp:
  assumes "plain_pattern p"
  shows "RegExp_test_i (domainPatternSource p) d = Some (wildcard_match p d)"
proof -
  have src: "domainPatternSource p = CHR ''^'' # concat (map encode_char p) @ ''$''"
    by (simp add: domainPatternSource_def replace_encode)
  have "split_bar (domainPatternSource p) = [domainPatternSource p]"
    using plain_no_bar[OF assms] by (rule split_bar_no_bar)
  moreover have "parse_alternative (domainPatternSource p) = Some (True, map item_of p, True)"
    unfolding src parse_alternative_anchored using parse_items_encode[OF assms] by simp
  ultimately show ?thesis
    by (auto simp: RegExp_test_i_def test_alternative_def match_items_wildcard)
qed

lemma plain_pattern_matches:
  "regexp_conforms E \<Longrightarrow> plain_pattern p \<Longrightarrow> matchesDomainPattern E d p = wildcard_match p d"
  using plain_pattern_regexp[of p d] by (simp add: regexp_conforms_def matchesDomainPattern_def)

text \<open>
  The order of the resolution: the bundle identifier, the application name, the exact
  domain and then the patterns in their order, each only when its lookup gives a
  non-empty category; with patterns of dots, stars and literal characters only, the
  pattern step is the first wildcard match of the whole domain.
\<close>

lemma category_resolution_order:
  assumes "categoryLookup E = Some L"
  shows "getCategoryForEvent E ev =
     (if truthy_opt (bundleIdentifier ev)
         \<and> truthy_opt (lookup_bundles L (the (bundleIdentifier ev)))
      then lookup_bundles L (the (bundleIdentifier ev))
      else if truthy_opt (lookup_apps L (appName ev)) then lookup_apps L (appName ev)
      else if truthy_opt (url ev) \<and> truthy_opt (extractDomain E (url ev)) then
        (if truthy_opt (lookup_domains L (the (extractDomain E (url ev))))
         then lookup_domains L (the (extractDomain E (url ev)))
         else map_option snd
                (find (\<lambda>(p, c). matchesDomainPattern E (the (extractDomain E (url ev))) p)
                   (domainPatterns L)))
      else None)"
  using assms by (simp add: getCategoryForEvent_def Let_def firstPattern_find truthy_opt_def)

lemma plain_patterns_first_match:
  assumes "regexp_conforms E" and "\<forall>(p, c) \<in> set ps. plain_pattern p"
  shows "firstPattern E d ps = map_option snd (find (\<lambda>(p, c). wildcard_match p d) ps)"
  using assms(2) by (induction ps) (auto simp: plain_pattern_matches[OF assms(1)])

text \<open>
  C8: the code at a pattern with an alternation bar. The pattern \<open>github.com|gitlab.com\<close>
  becomes the expression \<open>^github\.com|gitlab\.com$\<close>, in which \<open>^\<close> belongs to the first
  alternative only and \<open>$\<close> to the second only. The test succeeds on the domain
  \<open>github.com.evil.example\<close>, which the pattern does not match as a whole, and
  \<open>getCategoryForEvent\<close> returns the category of the pattern for an event with that domain.
\<close>

theorem pattern_with_bar_matches_prefix:
  "domainPatternSource ''github.com|gitlab.com''
     = ''^github'' @ [CHR 0x5C] @ ''.com|gitlab'' @ [CHR 0x5C] @ ''.com$''
   \<and> RegExp_test_i (domainPatternSource ''github.com|gitlab.com'') ''github.com.evil.example''
       = Some True
   \<and> matchesDomainPattern pattern_env ''github.com.evil.example'' ''github.com|gitlab.com''
   \<and> \<not> wildcard_match ''github.com|gitlab.com'' ''github.com.evil.example''
   \<and> extractDomain pattern_env (url evil_event) = Some ''github.com.evil.example''
   \<and> getCategoryForEvent pattern_env evil_event = Some ''development''"
  by code_simp

end
